theory Spec2Isabelle
  imports Main "HOL-Library.Sublist" "HOL-Library.AList"
begin

section \<open>JavaScript strings\<close>

text \<open>
  A JavaScript string is a sequence of UTF-16 code units. It is modelled as the list of
  its code units, each a natural number below \<open>65536\<close>. String literals of the source
  are ASCII and written through \<open>js\<close>.
\<close>

type_synonym jsstring = "nat list"

definition js :: "string \<Rightarrow> jsstring" where
  "js s = map of_char s"

text \<open>\<^verbatim>\<open>s.includes(sub)\<close>: \<open>sub\<close> occurs in \<open>s\<close> as a contiguous run.\<close>

fun js_includes :: "jsstring \<Rightarrow> jsstring \<Rightarrow> bool" where
  "js_includes [] sub = (sub = [])"
| "js_includes (c # cs) sub = (prefix sub (c # cs) \<or> js_includes cs sub)"

section \<open>Constants (lib/constants)\<close>

definition HTTP_STATUS_UNAUTHORIZED :: int where "HTTP_STATUS_UNAUTHORIZED = 401"
definition HTTP_STATUS_FORBIDDEN :: int where "HTTP_STATUS_FORBIDDEN = 403"
definition HTTP_STATUS_NOT_FOUND :: int where "HTTP_STATUS_NOT_FOUND = 404"
definition HTTP_STATUS_CONFLICT :: int where "HTTP_STATUS_CONFLICT = 409"
definition HTTP_STATUS_UNPROCESSABLE_ENTITY :: int where "HTTP_STATUS_UNPROCESSABLE_ENTITY = 422"
definition HTTP_STATUS_INTERNAL_SERVER_ERROR :: int where "HTTP_STATUS_INTERNAL_SERVER_ERROR = 500"

text \<open>
  \<^verbatim>\<open>ERROR_MESSAGES.NETWORK_ERROR\<close>, a Korean sentence of seventeen code units
  ("check the network connection").
\<close>

definition ERROR_MESSAGES_NETWORK_ERROR :: jsstring where
  "ERROR_MESSAGES_NETWORK_ERROR =
     [45348, 53944, 50892, 53356, 32, 50672, 44208, 51012, 32,
      54869, 51064, 54644, 32, 51452, 49464, 50836, 46]"

section \<open>Failure classifier (lib/error-handler.ts)\<close>

datatype ErrorType =
    NETWORK_ERROR
  | AUTHENTICATION_ERROR
  | AUTHORIZATION_ERROR
  | VALIDATION_ERROR
  | NOT_FOUND_ERROR
  | CONFLICT_ERROR
  | SERVER_ERROR
  | UNKNOWN_ERROR

text \<open>
  The argument of \<open>classify\<close> has type \<^verbatim>\<open>unknown\<close>: any value that a \<^verbatim>\<open>catch\<close>
  can receive. The classifier looks at four things only: whether the value is a string,
  whether it is an \<^verbatim>\<open>Error\<close> instance (then its \<^verbatim>\<open>name\<close> and \<^verbatim>\<open>message\<close>, strings
  by the declaration of \<^verbatim>\<open>Error\<close>), whether it is an object owning a
  \<^verbatim>\<open>response\<close> property, and what that property holds. A \<^verbatim>\<open>response\<close> that is
  neither \<^verbatim>\<open>null\<close> nor \<^verbatim>\<open>undefined\<close> is a \<^verbatim>\<open>Response\<close>, whose
  \<^verbatim>\<open>status\<close> is an integer.
\<close>

datatype response_prop =
    ResponseAbsent      \<comment> \<open>the object has no \<^verbatim>\<open>response\<close> property\<close>
  | ResponseNullish     \<comment> \<open>the property is there and holds \<^verbatim>\<open>null\<close> or \<^verbatim>\<open>undefined\<close>\<close>
  | Response int        \<comment> \<open>a \<^verbatim>\<open>Response\<close> with this \<^verbatim>\<open>status\<close>\<close>

datatype thrown =
    ThrownString jsstring
      \<comment> \<open>\<^verbatim>\<open>typeof error === "string"\<close>\<close>
  | ThrownOther
      \<comment> \<open>\<^verbatim>\<open>undefined\<close>, \<^verbatim>\<open>null\<close>, a number, a boolean, a symbol, a bigint, a function\<close>
  | ThrownError jsstring jsstring response_prop
      \<comment> \<open>\<^verbatim>\<open>error instanceof Error\<close>: its name, its message, its \<^verbatim>\<open>response\<close>\<close>
  | ThrownObject "jsstring option" response_prop
      \<comment> \<open>any other object: its \<^verbatim>\<open>message\<close> (\<open>None\<close> when \<^verbatim>\<open>undefined\<close>),
          its \<^verbatim>\<open>response\<close>\<close>

datatype js_exception = TypeError

record StructuredError =
  type :: ErrorType
  status :: "int option"
  message :: "jsstring option"
  originalError :: thrown

fun getErrorTypeByStatus :: "int \<Rightarrow> ErrorType" where
  "getErrorTypeByStatus s =
     (if s = HTTP_STATUS_UNAUTHORIZED then AUTHENTICATION_ERROR
      else if s = HTTP_STATUS_FORBIDDEN then AUTHORIZATION_ERROR
      else if s = HTTP_STATUS_NOT_FOUND then NOT_FOUND_ERROR
      else if s = HTTP_STATUS_CONFLICT then CONFLICT_ERROR
      else if s = HTTP_STATUS_UNPROCESSABLE_ENTITY then VALIDATION_ERROR
      else if s = HTTP_STATUS_INTERNAL_SERVER_ERROR then SERVER_ERROR
      else if s \<ge> 400 \<and> s < 500 then VALIDATION_ERROR
      else if s \<ge> 500 then SERVER_ERROR
      else UNKNOWN_ERROR)"

text \<open>The \<^verbatim>\<open>response\<close> property of a thrown value; primitives own no property.\<close>

fun response_of :: "thrown \<Rightarrow> response_prop" where
  "response_of (ThrownString s) = ResponseAbsent"
| "response_of ThrownOther = ResponseAbsent"
| "response_of (ThrownError nm msg r) = r"
| "response_of (ThrownObject msg r) = r"

text \<open>\<^verbatim>\<open>httpError.message\<close> on an object.\<close>

fun message_of :: "thrown \<Rightarrow> jsstring option" where
  "message_of (ThrownError nm msg r) = Some msg"
| "message_of (ThrownObject msg r) = msg"
| "message_of (ThrownString s) = None"
| "message_of ThrownOther = None"

text \<open>
  \<^verbatim>\<open>error && typeof error === "object" && "response" in error\<close>
\<close>

definition has_response :: "thrown \<Rightarrow> bool" where
  "has_response error = (response_of error \<noteq> ResponseAbsent)"

text \<open>
  \<open>classify\<close>, branch by branch. Reading \<^verbatim>\<open>httpError.response.status\<close> when
  \<^verbatim>\<open>response\<close> is \<^verbatim>\<open>null\<close> or \<^verbatim>\<open>undefined\<close> raises a \<^verbatim>\<open>TypeError\<close>, which nothing
  in \<open>classify\<close> catches.
\<close>

fun classify :: "thrown \<Rightarrow> js_exception + StructuredError" where
  "classify error =
     (if has_response error then
        (case response_of error of
           Response st \<Rightarrow>
             Inr \<lparr>type = getErrorTypeByStatus st, status = Some st,
                  message = message_of error, originalError = error\<rparr>
         | _ \<Rightarrow> Inl TypeError)
      else
        (case error of
           ThrownError nm msg r \<Rightarrow>
             (if nm = js ''TypeError'' \<and> js_includes msg (js ''fetch'') then
                Inr \<lparr>type = NETWORK_ERROR, status = None,
                     message = Some ERROR_MESSAGES_NETWORK_ERROR, originalError = error\<rparr>
              else
                Inr \<lparr>type = UNKNOWN_ERROR, status = None,
                     message = Some (if msg \<noteq> [] then msg else ERROR_MESSAGES_NETWORK_ERROR),
                     originalError = error\<rparr>)
         | ThrownString s \<Rightarrow>
             Inr \<lparr>type = UNKNOWN_ERROR, status = None, message = Some s,
                  originalError = error\<rparr>
         | _ \<Rightarrow>
             Inr \<lparr>type = UNKNOWN_ERROR, status = None,
                  message = Some ERROR_MESSAGES_NETWORK_ERROR, originalError = error\<rparr>))"

text \<open>
  The decision table of the specification, in its own words: the six listed status
  codes, then the other 4xx, then the other codes from 500 on, then anything else.
\<close>

definition decision_table :: "int \<Rightarrow> ErrorType" where
  "decision_table s =
     (if s = 401 then AUTHENTICATION_ERROR
      else if s = 403 then AUTHORIZATION_ERROR
      else if s = 404 then NOT_FOUND_ERROR
      else if s = 409 then CONFLICT_ERROR
      else if s = 422 then VALIDATION_ERROR
      else if s = 500 then SERVER_ERROR
      else if 400 \<le> s \<and> s < 500 then VALIDATION_ERROR
      else if 500 \<le> s then SERVER_ERROR
      else UNKNOWN_ERROR)"

text \<open>The kind of the structured failure that a call of \<open>classify\<close> returned, if it returned.\<close>

fun kind_of :: "js_exception + StructuredError \<Rightarrow> ErrorType option" where
  "kind_of (Inr sf) = Some (type sf)"
| "kind_of (Inl ex) = None"

text \<open>
  The row "transport-level failure before a response is received" of the specification's
  table, in the specification's terms and without reference to the test that \<open>classify\<close>
  makes: the request got no response, and \<^verbatim>\<open>fetch\<close> rejected. The rejection of
  \<^verbatim>\<open>fetch\<close> is an \<^verbatim>\<open>Error\<close> named \<^verbatim>\<open>TypeError\<close> that carries no response; its
  message is the platform's choice ("Failed to fetch" in Chrome, "Network request
  failed" in the \<^verbatim>\<open>fetch\<close> of React Native, on which this application runs). Every
  transport failure has this shape, whatever its message. (So has a \<^verbatim>\<open>TypeError\<close> that
  the program raises itself: the shape does not tell them apart, and neither does
  \<open>classify\<close>.)
\<close>

fun spec_transport_failure :: "thrown \<Rightarrow> bool" where
  "spec_transport_failure (ThrownError nm msg r) =
     (nm = js ''TypeError'' \<and> r = ResponseAbsent)"
| "spec_transport_failure _ = False"

section \<open>Deduplication registry (lib/request-deduplicator)\<close>

text \<open>
  \<^verbatim>\<open>pendingRequests\<close> is a \<^verbatim>\<open>Map\<close> from request keys to entries. A \<^verbatim>\<open>Map\<close> iterates in
  insertion order, so it is an association list: \<^verbatim>\<open>get\<close> is \<open>map_of\<close>, \<^verbatim>\<open>set\<close> is
  \<open>AList.update\<close> (in place for a known key, at the end for a new one), \<^verbatim>\<open>delete\<close> is
  \<open>AList.delete\<close>.

  Every call of \<^verbatim>\<open>requestFn\<close> starts one operation. Operations are numbered in the order
  in which they start; the \<^verbatim>\<open>AbortController\<close> made for an operation and the promise
  \<^verbatim>\<open>requestFn(controller.signal).finally(...)\<close> carry the operation's number.
  \<^verbatim>\<open>Date.now()\<close> is an integer number of milliseconds.
\<close>

type_synonym request_key = jsstring

record pending_request =
  promise :: nat
  controller :: nat
  timestamp :: int

record ('e, 'a) operation =
  op_key :: request_key
  outcome :: "('e + 'a) option"   \<comment> \<open>\<open>None\<close> while the operation has not settled\<close>

record ('e, 'a) registry =
  pendingRequests :: "(request_key \<times> pending_request) list"
  operations :: "('e, 'a) operation list"
    \<comment> \<open>every operation started so far\<close>
  abort_calls :: "nat list"
    \<comment> \<open>the controllers on which \<^verbatim>\<open>abort()\<close> was called, in call order\<close>
  returned :: "(request_key \<times> nat) list"
    \<comment> \<open>for every call of \<open>deduplicate\<close>, its key and the promise it returned\<close>

definition PENDING_TIMEOUT :: int where "PENDING_TIMEOUT = 30000"
definition CLEANUP_INTERVAL :: int where "CLEANUP_INTERVAL = 60000"

definition empty_registry :: "('e, 'a) registry" where
  "empty_registry = \<lparr>pendingRequests = [], operations = [], abort_calls = [], returned = []\<rparr>"

text \<open>
  \<open>deduplicate key requestFn\<close> at time \<open>now\<close>. The body has no suspension point, so it
  runs as one step: either the entry of \<open>key\<close> is found and its promise returned, or
  \<^verbatim>\<open>requestFn\<close> is called (a new operation starts) and its promise is registered.
\<close>

definition deduplicate :: "request_key \<Rightarrow> int \<Rightarrow> ('e, 'a) registry \<Rightarrow> nat \<times> ('e, 'a) registry" where
  "deduplicate key now s =
     (case map_of (pendingRequests s) key of
        Some existingRequest \<Rightarrow>
          (promise existingRequest,
           s\<lparr>returned := returned s @ [(key, promise existingRequest)]\<rparr>)
      | None \<Rightarrow>
          (let n = length (operations s) in
           (n,
            s\<lparr>operations := operations s @ [\<lparr>op_key = key, outcome = None\<rparr>],
              pendingRequests :=
                AList.update key \<lparr>promise = n, controller = n, timestamp = now\<rparr>
                  (pendingRequests s),
              returned := returned s @ [(key, n)]\<rparr>)))"

text \<open>
  Operation \<open>n\<close> settles with \<open>r\<close>: the \<^verbatim>\<open>finally\<close> callback deletes the entry of the
  operation's key, then the promise settles. An operation settles once.
\<close>

definition settle :: "nat \<Rightarrow> 'e + 'a \<Rightarrow> ('e, 'a) registry \<Rightarrow> ('e, 'a) registry" where
  "settle n r s =
     (if n < length (operations s) \<and> outcome (operations s ! n) = None then
        s\<lparr>operations := (operations s)[n := (operations s ! n)\<lparr>outcome := Some r\<rparr>],
          pendingRequests := AList.delete (op_key (operations s ! n)) (pendingRequests s)\<rparr>
      else s)"

definition cancelRequest :: "request_key \<Rightarrow> ('e, 'a) registry \<Rightarrow> bool \<times> ('e, 'a) registry" where
  "cancelRequest key s =
     (case map_of (pendingRequests s) key of
        Some request \<Rightarrow>
          (True, s\<lparr>abort_calls := abort_calls s @ [controller request],
                   pendingRequests := AList.delete key (pendingRequests s)\<rparr>)
      | None \<Rightarrow> (False, s))"

definition cancelAllRequests :: "('e, 'a) registry \<Rightarrow> ('e, 'a) registry" where
  "cancelAllRequests s =
     s\<lparr>abort_calls := abort_calls s @ map (\<lambda>(key, request). controller request) (pendingRequests s),
       pendingRequests := []\<rparr>"

text \<open>
  \<open>cleanupExpiredRequests\<close>: the first loop aborts every entry older than
  \<open>PENDING_TIMEOUT\<close> and collects its key, the second deletes the collected keys.
\<close>

fun expired_loop :: "int \<Rightarrow> (request_key \<times> pending_request) list \<Rightarrow> nat list \<times> request_key list" where
  "expired_loop now [] = ([], [])"
| "expired_loop now ((key, request) # rest) =
     (let (aborts, expiredKeys) = expired_loop now rest in
      if now - timestamp request > PENDING_TIMEOUT
      then (controller request # aborts, key # expiredKeys)
      else (aborts, expiredKeys))"

fun delete_keys :: "request_key list \<Rightarrow> (request_key \<times> pending_request) list \<Rightarrow> (request_key \<times> pending_request) list" where
  "delete_keys [] m = m"
| "delete_keys (key # keys) m = delete_keys keys (AList.delete key m)"

definition cleanupExpiredRequests :: "int \<Rightarrow> ('e, 'a) registry \<Rightarrow> ('e, 'a) registry" where
  "cleanupExpiredRequests now s =
     (let (aborts, expiredKeys) = expired_loop now (pendingRequests s) in
      s\<lparr>abort_calls := abort_calls s @ aborts,
        pendingRequests := delete_keys expiredKeys (pendingRequests s)\<rparr>)"

text \<open>\<open>getStatus().pendingCount\<close>\<close>

definition pendingCount :: "('e, 'a) registry \<Rightarrow> nat" where
  "pendingCount s = length (pendingRequests s)"

text \<open>
  The tasks interleave at suspension points only. Between two suspension points a task
  runs alone, so a run of the registry is a sequence of events, each atomic.
\<close>

datatype ('e, 'a) registry_event =
    Deduplicate request_key int      \<comment> \<open>a call of \<open>deduplicate\<close> with this key, at this time\<close>
  | Settle nat "'e + 'a"             \<comment> \<open>this operation settles with this result\<close>
  | CancelRequest request_key
  | CancelAllRequests
  | CleanupExpiredRequests int       \<comment> \<open>the periodic sweep runs at this time\<close>

fun registry_step :: "('e, 'a) registry_event \<Rightarrow> ('e, 'a) registry \<Rightarrow> ('e, 'a) registry" where
  "registry_step (Deduplicate key now) s = snd (deduplicate key now s)"
| "registry_step (Settle n r) s = settle n r s"
| "registry_step (CancelRequest key) s = snd (cancelRequest key s)"
| "registry_step CancelAllRequests s = cancelAllRequests s"
| "registry_step (CleanupExpiredRequests now) s = cleanupExpiredRequests now s"

fun registry_run :: "('e, 'a) registry_event list \<Rightarrow> ('e, 'a) registry \<Rightarrow> ('e, 'a) registry" where
  "registry_run [] s = s"
| "registry_run (ev # evs) s = registry_run evs (registry_step ev s)"

text \<open>An entry is older than the pending timeout of thirty seconds.\<close>

definition is_expired :: "int \<Rightarrow> pending_request \<Rightarrow> bool" where
  "is_expired now request = (now - timestamp request > 30000)"

text \<open>
  The invariant of every run, whatever its events: the registry holds one entry per key,
  and every entry stands for an operation of its key that has not settled. (An operation
  that has not settled may have lost its entry: to \<open>cancelRequest\<close>, to
  \<open>cancelAllRequests\<close>, to the sweep, or to the settlement of an older operation of its
  key, whose \<^verbatim>\<open>finally\<close> callback deletes by key.)
\<close>

definition registry_inv :: "('e, 'a) registry \<Rightarrow> bool" where
  "registry_inv s =
     (distinct (map fst (pendingRequests s))
      \<and> (\<forall>k r. map_of (pendingRequests s) k = Some r \<longrightarrow>
             promise r < length (operations s)
             \<and> op_key (operations s ! promise r) = k
             \<and> outcome (operations s ! promise r) = None))"

text \<open>\<open>idle key s\<close>: no operation started for \<open>key\<close> is still running.\<close>

definition idle :: "request_key \<Rightarrow> ('e, 'a) registry \<Rightarrow> bool" where
  "idle key s = list_all (\<lambda>op. op_key op = key \<longrightarrow> outcome op \<noteq> None) (operations s)"

text \<open>
  \<open>keeps key n t0 ev\<close>: the event is none of those that take the entry of \<open>key\<close>, made at
  time \<open>t0\<close> for operation \<open>n\<close>, out of the registry. Those are the settlement of
  operation \<open>n\<close>, \<open>cancelRequest key\<close>, \<open>cancelAllRequests\<close>, and a sweep that runs more
  than \<open>PENDING_TIMEOUT\<close> after \<open>t0\<close>.
\<close>

fun keeps :: "request_key \<Rightarrow> nat \<Rightarrow> int \<Rightarrow> ('e, 'a) registry_event \<Rightarrow> bool" where
  "keeps key n t0 (Deduplicate k now) = True"
| "keeps key n t0 (Settle m v) = (m \<noteq> n)"
| "keeps key n t0 (CancelRequest k) = (k \<noteq> key)"
| "keeps key n t0 CancelAllRequests = False"
| "keeps key n t0 (CleanupExpiredRequests now) = (\<not> now - t0 > PENDING_TIMEOUT)"

text \<open>
  \<open>in_flight key n t0 r0 s\<close>: operation \<open>n\<close> of \<open>key\<close> is running and registered with the
  time stamp \<open>t0\<close>, every older operation of \<open>key\<close> has settled, no later operation has
  this key, and every call for \<open>key\<close> since the \<open>r0\<close>-th call of \<open>deduplicate\<close> got
  promise \<open>n\<close>.
\<close>

definition in_flight :: "request_key \<Rightarrow> nat \<Rightarrow> int \<Rightarrow> nat \<Rightarrow> ('e, 'a) registry \<Rightarrow> bool" where
  "in_flight key n t0 r0 s =
     (n < length (operations s)
      \<and> op_key (operations s ! n) = key
      \<and> outcome (operations s ! n) = None
      \<and> (\<exists>r. map_of (pendingRequests s) key = Some r \<and> promise r = n \<and> timestamp r = t0)
      \<and> (\<forall>m < n. op_key (operations s ! m) = key \<longrightarrow> outcome (operations s ! m) \<noteq> None)
      \<and> (\<forall>m. n < m \<and> m < length (operations s) \<longrightarrow> op_key (operations s ! m) \<noteq> key)
      \<and> r0 \<le> length (returned s)
      \<and> (\<forall>(k, p) \<in> set (drop r0 (returned s)). k = key \<longrightarrow> p = n))"

section \<open>The credential transform (lib/token-manager.ts, \<open>TokenCrypto\<close>)\<close>

subsection \<open>The platform functions it calls\<close>

text \<open>
  \<^verbatim>\<open>encodeURIComponent\<close> keeps the unreserved characters (letters, digits and
  \<^verbatim>\<open>- _ . ! ~ * ' ( )\<close>) and writes every other code point as the octets of its UTF-8
  form, each octet as \<^verbatim>\<open>%XX\<close> in upper-case hexadecimal. A surrogate that is not part of
  a pair raises \<^verbatim>\<open>URIError\<close>: the result is \<open>None\<close>.
\<close>

definition is_unreserved :: "nat \<Rightarrow> bool" where
  "is_unreserved c =
     ((65 \<le> c \<and> c \<le> 90) \<or> (97 \<le> c \<and> c \<le> 122) \<or> (48 \<le> c \<and> c \<le> 57)
      \<or> c \<in> {45, 95, 46, 33, 126, 42, 39, 40, 41})"

definition is_high_surrogate :: "nat \<Rightarrow> bool" where
  "is_high_surrogate c = (0xD800 \<le> c \<and> c \<le> 0xDBFF)"

definition is_low_surrogate :: "nat \<Rightarrow> bool" where
  "is_low_surrogate c = (0xDC00 \<le> c \<and> c \<le> 0xDFFF)"

definition hex_digit :: "nat \<Rightarrow> nat" where
  "hex_digit n = (if n < 10 then 48 + n else 55 + n)"

definition percent :: "nat \<Rightarrow> jsstring" where
  "percent octet = [37, hex_digit (octet div 16), hex_digit (octet mod 16)]"

definition utf8_encode :: "nat \<Rightarrow> nat list" where
  "utf8_encode cp =
     (if cp < 0x80 then [cp]
      else if cp < 0x800 then [0xC0 + cp div 64, 0x80 + cp mod 64]
      else if cp < 0x10000 then
        [0xE0 + cp div 4096, 0x80 + cp div 64 mod 64, 0x80 + cp mod 64]
      else
        [0xF0 + cp div 262144, 0x80 + cp div 4096 mod 64, 0x80 + cp div 64 mod 64,
         0x80 + cp mod 64])"

definition escape :: "nat \<Rightarrow> jsstring" where
  "escape cp = concat (map percent (utf8_encode cp))"

definition pair_code_point :: "nat \<Rightarrow> nat \<Rightarrow> nat" where
  "pair_code_point hi lo = 0x10000 + (hi - 0xD800) * 0x400 + (lo - 0xDC00)"

fun encodeURIComponent :: "jsstring \<Rightarrow> jsstring option" where
  "encodeURIComponent [] = Some []"
| "encodeURIComponent (c # cs) =
     (if is_unreserved c then map_option ((#) c) (encodeURIComponent cs)
      else if is_low_surrogate c then None
      else if is_high_surrogate c then
        (case cs of
           [] \<Rightarrow> None
         | d # ds \<Rightarrow>
             if is_low_surrogate d
             then map_option ((@) (escape (pair_code_point c d))) (encodeURIComponent ds)
             else None)
      else map_option ((@) (escape c)) (encodeURIComponent cs))"

text \<open>
  \<^verbatim>\<open>decodeURIComponent\<close> reads \<^verbatim>\<open>%XX\<close> as an octet. An octet below 128 is a character;
  an octet announcing a sequence of two to four octets is followed by that many escaped
  continuation octets, and the sequence has to be the UTF-8 form of a code point (no
  overlong form, no surrogate, nothing above \<open>0x10FFFF\<close>), which is appended as UTF-16.
  Anything else raises \<^verbatim>\<open>URIError\<close>. The first argument of \<open>decode\<close> counts the
  continuation octets still expected, the second holds the octets read so far.
\<close>

definition hex_value :: "nat \<Rightarrow> nat option" where
  "hex_value c =
     (if 48 \<le> c \<and> c \<le> 57 then Some (c - 48)
      else if 65 \<le> c \<and> c \<le> 70 then Some (c - 55)
      else if 97 \<le> c \<and> c \<le> 102 then Some (c - 87)
      else None)"

definition parse_hex_octet :: "nat \<Rightarrow> nat \<Rightarrow> nat option" where
  "parse_hex_octet h l =
     (case (hex_value h, hex_value l) of
        (Some a, Some b) \<Rightarrow> Some (16 * a + b)
      | _ \<Rightarrow> None)"

definition leading_ones :: "nat \<Rightarrow> nat" where
  "leading_ones octet =
     (if octet < 0x80 then 0 else if octet < 0xC0 then 1 else if octet < 0xE0 then 2
      else if octet < 0xF0 then 3 else if octet < 0xF8 then 4 else 5)"

definition is_continuation :: "nat \<Rightarrow> bool" where
  "is_continuation octet = (0x80 \<le> octet \<and> octet < 0xC0)"

fun utf8_decode :: "nat list \<Rightarrow> nat option" where
  "utf8_decode [b0, b1] =
     (let cp = (b0 - 0xC0) * 64 + (b1 - 0x80) in
      if is_continuation b1 \<and> 0x80 \<le> cp then Some cp else None)"
| "utf8_decode [b0, b1, b2] =
     (let cp = (b0 - 0xE0) * 4096 + (b1 - 0x80) * 64 + (b2 - 0x80) in
      if is_continuation b1 \<and> is_continuation b2 \<and> 0x800 \<le> cp
         \<and> \<not> is_high_surrogate cp \<and> \<not> is_low_surrogate cp
      then Some cp else None)"
| "utf8_decode [b0, b1, b2, b3] =
     (let cp = (b0 - 0xF0) * 262144 + (b1 - 0x80) * 4096 + (b2 - 0x80) * 64 + (b3 - 0x80) in
      if is_continuation b1 \<and> is_continuation b2 \<and> is_continuation b3
         \<and> 0x10000 \<le> cp \<and> cp \<le> 0x10FFFF
      then Some cp else None)"
| "utf8_decode _ = None"

definition utf16_encode :: "nat \<Rightarrow> jsstring" where
  "utf16_encode cp =
     (if cp < 0x10000 then [cp]
      else [0xD800 + (cp - 0x10000) div 0x400, 0xDC00 + (cp - 0x10000) mod 0x400])"

fun decode :: "nat \<Rightarrow> nat list \<Rightarrow> jsstring \<Rightarrow> jsstring option" where
  "decode 0 octets [] = Some []"
| "decode 0 octets (c # cs) =
     (if c \<noteq> 37 then map_option ((#) c) (decode 0 [] cs)
      else
        (case cs of
           h # l # rest \<Rightarrow>
             (case parse_hex_octet h l of
                None \<Rightarrow> None
              | Some b \<Rightarrow>
                  if leading_ones b = 0 then map_option ((#) b) (decode 0 [] rest)
                  else if leading_ones b = 1 \<or> leading_ones b > 4 then None
                  else decode (leading_ones b - 1) [b] rest)
         | _ \<Rightarrow> None))"
| "decode (Suc j) octets (p # h # l # rest) =
     (if p \<noteq> 37 then None
      else
        (case parse_hex_octet h l of
           None \<Rightarrow> None
         | Some b \<Rightarrow>
             if j = 0 then
               (case utf8_decode (octets @ [b]) of
                  None \<Rightarrow> None
                | Some cp \<Rightarrow> map_option ((@) (utf16_encode cp)) (decode 0 [] rest))
             else decode j (octets @ [b]) rest))"
| "decode (Suc j) octets _ = None"

definition decodeURIComponent :: "jsstring \<Rightarrow> jsstring option" where
  "decodeURIComponent s = decode 0 [] s"

text \<open>
  \<^verbatim>\<open>btoa\<close> takes a string of code units below 256 (\<^verbatim>\<open>InvalidCharacterError\<close> otherwise)
  and writes three octets as four characters of the base64 alphabet, padding the last
  group with \<^verbatim>\<open>=\<close>.
\<close>

definition b64_char :: "nat \<Rightarrow> nat" where
  "b64_char n =
     (if n < 26 then 65 + n else if n < 52 then 71 + n else if n < 62 then n - 4
      else if n = 62 then 43 else 47)"

fun base64_sextets :: "nat list \<Rightarrow> nat list" where
  "base64_sextets (a # b # c # rest) =
     [a div 4, a mod 4 * 16 + b div 16, b mod 16 * 4 + c div 64, c mod 64] @ base64_sextets rest"
| "base64_sextets [a, b] = [a div 4, a mod 4 * 16 + b div 16, b mod 16 * 4]"
| "base64_sextets [a] = [a div 4, a mod 4 * 16]"
| "base64_sextets [] = []"

definition base64_padding :: "nat list \<Rightarrow> jsstring" where
  "base64_padding octets = replicate ((3 - length octets mod 3) mod 3) 61"

definition btoa :: "jsstring \<Rightarrow> jsstring option" where
  "btoa s =
     (if list_all (\<lambda>c. c < 256) s
      then Some (map b64_char (base64_sextets s) @ base64_padding s)
      else None)"

text \<open>
  \<^verbatim>\<open>atob\<close> removes ASCII whitespace; when the length is then a multiple of four it
  removes one or two \<^verbatim>\<open>=\<close> at the end; a length of one modulo four or a character
  outside the alphabet raises \<^verbatim>\<open>InvalidCharacterError\<close>; four characters give three
  octets, and the bits left over in a last group of two or three characters are dropped.
\<close>

definition is_ascii_whitespace :: "nat \<Rightarrow> bool" where
  "is_ascii_whitespace c = (c \<in> {9, 10, 12, 13, 32})"

definition b64_value :: "nat \<Rightarrow> nat option" where
  "b64_value c =
     (if 65 \<le> c \<and> c \<le> 90 then Some (c - 65)
      else if 97 \<le> c \<and> c \<le> 122 then Some (c - 71)
      else if 48 \<le> c \<and> c \<le> 57 then Some (c + 4)
      else if c = 43 then Some 62
      else if c = 47 then Some 63
      else None)"

definition strip_padding :: "jsstring \<Rightarrow> jsstring" where
  "strip_padding s =
     (case rev s of
        a # b # r \<Rightarrow> if a = 61 \<and> b = 61 then rev r else if a = 61 then rev (b # r) else s
      | [a] \<Rightarrow> if a = 61 then [] else s
      | [] \<Rightarrow> s)"

fun base64_octets :: "nat list \<Rightarrow> nat list" where
  "base64_octets (w # x # y # z # rest) =
     [w * 4 + x div 16, x mod 16 * 16 + y div 4, y mod 4 * 64 + z] @ base64_octets rest"
| "base64_octets [w, x, y] = [w * 4 + x div 16, x mod 16 * 16 + y div 4]"
| "base64_octets [w, x] = [w * 4 + x div 16]"
| "base64_octets _ = []"

definition atob :: "jsstring \<Rightarrow> jsstring option" where
  "atob s =
     (let unspaced = filter (\<lambda>c. \<not> is_ascii_whitespace c) s;
          body = (if length unspaced mod 4 = 0 then strip_padding unspaced else unspaced)
      in if length body mod 4 = 1 then None
         else map_option base64_octets (those (map b64_value body)))"

text \<open>
  \<^verbatim>\<open>Date.now()\<close> is an integer; appended to a string it is written in decimal.
  \<^verbatim>\<open>parseInt\<close> skips leading white space, reads a sign, reads hexadecimal digits after
  \<^verbatim>\<open>0x\<close> and decimal digits otherwise, stops at the first character that is no digit,
  and gives \<^verbatim>\<open>NaN\<close> (\<open>None\<close>) when it has read no digit. The integers in play (times in
  milliseconds) are far below \<open>2 ^ 53\<close>, where a JavaScript number is exact and is
  written without exponent.
\<close>

fun decimal :: "nat \<Rightarrow> jsstring" where
  "decimal n = (if n < 10 then [48 + n] else decimal (n div 10) @ [48 + n mod 10])"

definition number_toString :: "int \<Rightarrow> jsstring" where
  "number_toString i = (if i < 0 then 45 # decimal (nat (- i)) else decimal (nat i))"

definition is_white_space :: "nat \<Rightarrow> bool" where
  "is_white_space c =
     (c \<in> {9, 10, 11, 12, 13, 32, 160, 0x1680, 0x2028, 0x2029, 0x202F, 0x205F, 0x3000, 0xFEFF}
      \<or> (0x2000 \<le> c \<and> c \<le> 0x200A))"

definition digit_value :: "nat \<Rightarrow> nat \<Rightarrow> nat option" where
  "digit_value radix c =
     (case hex_value c of
        Some v \<Rightarrow> if v < radix then Some v else None
      | None \<Rightarrow> None)"

fun read_digits :: "nat \<Rightarrow> jsstring \<Rightarrow> nat option \<Rightarrow> nat option" where
  "read_digits radix [] acc = acc"
| "read_digits radix (c # cs) acc =
     (case digit_value radix c of
        None \<Rightarrow> acc
      | Some v \<Rightarrow>
          read_digits radix cs (Some (radix * (case acc of None \<Rightarrow> 0 | Some a \<Rightarrow> a) + v)))"

definition parseInt :: "jsstring \<Rightarrow> int option" where
  "parseInt s =
     (let trimmed = dropWhile is_white_space s;
          negative = (trimmed \<noteq> [] \<and> hd trimmed = 45);
          unsigned = (if trimmed \<noteq> [] \<and> (hd trimmed = 43 \<or> hd trimmed = 45)
                      then tl trimmed else trimmed);
          hex = (case unsigned of a # b # r \<Rightarrow> a = 48 \<and> (b = 120 \<or> b = 88) | _ \<Rightarrow> False);
          magnitude = (if hex then read_digits 16 (drop 2 unsigned) None
                       else read_digits 10 unsigned None)
      in map_option (\<lambda>m. if negative then - int m else int m) magnitude)"

subsection \<open>\<open>TokenCrypto\<close>\<close>

text \<open>
  \<open>encrypt\<close> at time \<open>now\<close>, and \<open>decrypt\<close>. Each catches whatever its body raises:
  \<open>encrypt\<close> then returns its argument as it is, \<open>decrypt\<close> returns \<^verbatim>\<open>null\<close>.
  \<^verbatim>\<open>decoded.split("|")[0]\<close> is the part of \<^verbatim>\<open>decoded\<close> before its first \<^verbatim>\<open>|\<close>.
\<close>

definition encrypt :: "jsstring \<Rightarrow> int \<Rightarrow> jsstring" where
  "encrypt text now =
     (case encodeURIComponent (text @ [124] @ number_toString now) of
        None \<Rightarrow> text
      | Some uri \<Rightarrow> (case btoa uri of None \<Rightarrow> text | Some encoded \<Rightarrow> encoded))"

definition decrypt :: "jsstring \<Rightarrow> jsstring option" where
  "decrypt encryptedText =
     (case atob encryptedText of
        None \<Rightarrow> None
      | Some binary \<Rightarrow>
          (case decodeURIComponent binary of
             None \<Rightarrow> None
           | Some decoded \<Rightarrow> Some (takeWhile (\<lambda>c. c \<noteq> 124) decoded)))"

text \<open>
  A string is well formed when every surrogate in it is half of a pair: a high
  surrogate followed by a low one. All code units are below \<open>65536\<close>.
\<close>

fun well_formed :: "jsstring \<Rightarrow> bool" where
  "well_formed [] = True"
| "well_formed (c # cs) =
     (c < 65536 \<and>
      (if is_low_surrogate c then False
       else if is_high_surrogate c then
         (case cs of [] \<Rightarrow> False | d # ds \<Rightarrow> is_low_surrogate d \<and> well_formed ds)
       else well_formed cs))"

section \<open>Credential store (lib/token-manager.ts, \<open>TokenManager\<close>)\<close>

text \<open>
  A field of type \<^verbatim>\<open>string | null\<close> is a \<open>jsstring option\<close>. JavaScript tests such a
  value for truth: \<^verbatim>\<open>null\<close>, \<^verbatim>\<open>undefined\<close> and the empty string are false.
\<close>

definition truthy :: "jsstring option \<Rightarrow> bool" where
  "truthy v = (v \<noteq> None \<and> v \<noteq> Some [])"

text \<open>
  \<^verbatim>\<open>new Error(message)\<close>: an error value with its message and, when one is given to the
  constructor, its cause.
\<close>

datatype js_error = JsError jsstring "thrown option"

fun cause_of :: "js_error \<Rightarrow> thrown option" where
  "cause_of (JsError msg cause) = cause"

text \<open>The two errors that the renewal raises, as the source constructs them.\<close>

definition no_refresh_token :: js_error where
  "no_refresh_token = JsError (js ''No refresh token available'') None"

definition refresh_failed :: js_error where
  "refresh_failed = JsError (js ''Token refresh failed'') None"

text \<open>The body of the refresh endpoint's answer: \<^verbatim>\<open>accessToken\<close>, \<^verbatim>\<open>refreshToken\<close>.\<close>

datatype auth_response = AuthResponse jsstring "jsstring option"

text \<open>
  The promise returned by \<open>performTokenRefresh\<close> is a ticket. It waits for the answer to
  its POST; with a \<^verbatim>\<open>window\<close> it then waits for the import of the auth store; then it is
  resolved with the new access token. It is rejected when the request or the reading of
  its answer fails.
\<close>

datatype ticket =
    AwaitingResponse
  | UpdatingStore jsstring
  | Resolved jsstring
  | RejectedWith js_error

fun ticket_outcome :: "ticket \<Rightarrow> (js_error + jsstring) option" where
  "ticket_outcome AwaitingResponse = None"
| "ticket_outcome (UpdatingStore t) = None"
| "ticket_outcome (Resolved t) = Some (Inr t)"
| "ticket_outcome (RejectedWith e) = Some (Inl e)"

text \<open>
  A call of \<open>refreshAccessToken\<close>: the ticket whose promise it awaits or returns (none
  when it throws before reaching one), whether it is the call that made this ticket, and
  the way its own promise settled (\<open>None\<close> while pending).
\<close>

record refresh_call =
  awaited :: "nat option"
  leads :: bool
  result :: "(js_error + jsstring) option"

text \<open>
  The state: the four fields of the class, the two settings fixed by the constructor
  (both are \<^verbatim>\<open>NODE_ENV === "production"\<close>, and only \<open>encryptTokens\<close> changes what is
  computed), whether \<^verbatim>\<open>window\<close> is defined, the storage object (when it is not
  available every access to it raises, and the three accessors catch that), the tickets
  made so far, the refresh token sent with each POST to the refresh endpoint, and the
  calls of \<open>refreshAccessToken\<close> made so far.
\<close>

record token_manager =
  accessToken :: "jsstring option"
  refreshToken :: "jsstring option"
  isRefreshing :: bool
  refreshPromise :: "nat option"
  encryptTokens :: bool
  has_window :: bool
  storage_available :: bool
  storage :: "jsstring \<Rightarrow> jsstring option"
  tickets :: "ticket list"
  refresh_requests :: "jsstring list"
  calls :: "refresh_call list"

definition setSecureItem :: "jsstring \<Rightarrow> jsstring \<Rightarrow> int \<Rightarrow> token_manager \<Rightarrow> token_manager" where
  "setSecureItem key v now s =
     (if \<not> has_window s then s
      else if \<not> storage_available s then s
      else s\<lparr>storage := (storage s)(key \<mapsto> (if encryptTokens s then encrypt v now else v))\<rparr>)"

definition getSecureItem :: "jsstring \<Rightarrow> token_manager \<Rightarrow> jsstring option" where
  "getSecureItem key s =
     (if \<not> has_window s then None
      else if \<not> storage_available s then None
      else if \<not> truthy (storage s key) then None
      else if encryptTokens s then decrypt (the (storage s key))
      else storage s key)"

definition removeSecureItem :: "jsstring \<Rightarrow> token_manager \<Rightarrow> token_manager" where
  "removeSecureItem key s =
     (if \<not> has_window s then s
      else if \<not> storage_available s then s
      else s\<lparr>storage := (storage s)(key := None)\<rparr>)"

text \<open>\<open>setTokens\<close> at time \<open>now\<close>; the expiry is fifty-five minutes later.\<close>

definition setTokens :: "jsstring \<Rightarrow> jsstring option \<Rightarrow> int \<Rightarrow> token_manager \<Rightarrow> token_manager" where
  "setTokens access refresh now s =
     (let s1 = s\<lparr>accessToken := Some access\<rparr>;
          s2 = (if truthy refresh then s1\<lparr>refreshToken := refresh\<rparr> else s1);
          s3 = setSecureItem (js ''accessToken'') access now s2;
          s4 = (if truthy refresh then setSecureItem (js ''refreshToken'') (the refresh) now s3
                else s3);
          expiryTime = now + 55 * 60 * 1000
      in setSecureItem (js ''tokenExpiry'') (number_toString expiryTime) now s4)"

definition getAccessToken :: "token_manager \<Rightarrow> jsstring option \<times> token_manager" where
  "getAccessToken s =
     (if truthy (accessToken s) then (accessToken s, s)
      else
        (let s1 = s\<lparr>accessToken := getSecureItem (js ''accessToken'') s\<rparr>;
             s2 = s1\<lparr>refreshToken := getSecureItem (js ''refreshToken'') s1\<rparr>
         in (accessToken s2, s2)))"

definition getRefreshToken :: "token_manager \<Rightarrow> jsstring option \<times> token_manager" where
  "getRefreshToken s =
     (if truthy (refreshToken s) then (refreshToken s, s)
      else
        (let s1 = s\<lparr>refreshToken := getSecureItem (js ''refreshToken'') s\<rparr>
         in (refreshToken s1, s1)))"

definition clearTokens :: "token_manager \<Rightarrow> token_manager" where
  "clearTokens s =
     removeSecureItem (js ''tokenExpiry'')
       (removeSecureItem (js ''refreshToken'')
          (removeSecureItem (js ''accessToken'')
             (s\<lparr>accessToken := None, refreshToken := None\<rparr>)))"

text \<open>
  \<open>isTokenExpired\<close> and \<open>isTokenExpiringSoon\<close> at time \<open>now\<close>. A comparison with
  \<^verbatim>\<open>NaN\<close> is false.
\<close>

definition isTokenExpired :: "int \<Rightarrow> token_manager \<Rightarrow> bool" where
  "isTokenExpired now s =
     (let expiryTime = getSecureItem (js ''tokenExpiry'') s in
      if \<not> truthy expiryTime then True
      else (case parseInt (the expiryTime) of None \<Rightarrow> False | Some expiry \<Rightarrow> now \<ge> expiry))"

definition isTokenExpiringSoon :: "int \<Rightarrow> token_manager \<Rightarrow> bool" where
  "isTokenExpiringSoon now s =
     (let expiryTime = getSecureItem (js ''tokenExpiry'') s in
      if \<not> truthy expiryTime then True
      else
        (let fiveMinutesFromNow = now + 5 * 60 * 1000 in
         case parseInt (the expiryTime) of
           None \<Rightarrow> False
         | Some expiry \<Rightarrow> fiveMinutesFromNow \<ge> expiry))"

subsection \<open>The renewal protocol\<close>

text \<open>
  The outcome of ticket \<open>p\<close> as a caller sees it.
\<close>

definition outcome_at :: "token_manager \<Rightarrow> nat \<Rightarrow> (js_error + jsstring) option" where
  "outcome_at s p = (if p < length (tickets s) then ticket_outcome (tickets s ! p) else None)"

text \<open>
  A call of \<open>refreshAccessToken\<close>, up to its first suspension point. With a ticket in the
  slot it returns the ticket's promise: its own promise settles later, as the ticket
  does. Without one it reads the refresh token; when there is none it throws, so that
  its promise is rejected at once; otherwise it fills the slot with a new ticket
  (\<open>performTokenRefresh\<close> runs up to its \<^verbatim>\<open>await\<close>, so the POST is sent) and suspends on
  the ticket.
\<close>

definition refreshAccessToken :: "token_manager \<Rightarrow> token_manager" where
  "refreshAccessToken s =
     (if isRefreshing s \<and> refreshPromise s \<noteq> None then
        s\<lparr>calls := calls s @
            [\<lparr>awaited = refreshPromise s, leads = False, result = None\<rparr>]\<rparr>
      else
        (let (token, s1) = getRefreshToken s in
         if \<not> truthy token then
           s1\<lparr>calls := calls s1 @
               [\<lparr>awaited = None, leads = False, result = Some (Inl no_refresh_token)\<rparr>]\<rparr>
         else
           s1\<lparr>isRefreshing := True,
              refreshPromise := Some (length (tickets s1)),
              tickets := tickets s1 @ [AwaitingResponse],
              refresh_requests := refresh_requests s1 @ [the token],
              calls := calls s1 @
                [\<lparr>awaited = Some (length (tickets s1)), leads = True, result = None\<rparr>]\<rparr>))"

text \<open>
  Call \<open>i\<close> is resumed, its ticket having settled. The call that made the ticket runs the
  rest of its \<^verbatim>\<open>try\<close> statement: it empties the slot and, on a rejection, clears the
  tokens and throws the rejection again. A call that returned the ticket's promise
  settles as the ticket did. A settled ticket queues the continuations of its
  subscribers; they run one by one, after whatever was queued before them, so each is a
  step of its own.
\<close>

definition resume :: "nat \<Rightarrow> token_manager \<Rightarrow> token_manager" where
  "resume i s =
     (if i < length (calls s) \<and> result (calls s ! i) = None then
        (case awaited (calls s ! i) of
           None \<Rightarrow> s
         | Some p \<Rightarrow>
             (case outcome_at s p of
                None \<Rightarrow> s
              | Some settled \<Rightarrow>
                  (let s1 = (if leads (calls s ! i) then
                               (let s0 = s\<lparr>isRefreshing := False, refreshPromise := None\<rparr>
                                in case settled of Inr t \<Rightarrow> s0 | Inl e \<Rightarrow> clearTokens s0)
                             else s)
                   in s1\<lparr>calls := (calls s1)[i := (calls s1 ! i)\<lparr>result := Some settled\<rparr>]\<rparr>)))
      else s)"

text \<open>
  The events of a run. Each is what one task does between two suspension points, or
  what the network or the module loader delivers.
\<close>

datatype tm_event =
    RefreshAccessToken
      \<comment> \<open>a task calls \<open>refreshAccessToken\<close>\<close>
  | ResponseArrives nat auth_response int
      \<comment> \<open>the POST of this ticket is answered with this body, at this time\<close>
  | RequestFails nat thrown
      \<comment> \<open>the POST of this ticket, or the reading of its answer, raises this\<close>
  | StoreUpdated nat
      \<comment> \<open>the import of the auth store for this ticket is over, whether it worked or not\<close>
  | Resumes nat
      \<comment> \<open>this call of \<open>refreshAccessToken\<close> is resumed\<close>
  | SetTokens jsstring "jsstring option" int
  | ClearTokens
  | GetAccessToken

text \<open>
  \<open>performTokenRefresh\<close> after its \<^verbatim>\<open>await\<close>: with the answer it sets the tokens and,
  where there is a \<^verbatim>\<open>window\<close>, waits for the import of the auth store before it returns
  the access token; whatever the request raised, its \<^verbatim>\<open>catch\<close> block logs it and throws
  \<^verbatim>\<open>new Error("Token refresh failed")\<close>.
\<close>

fun tm_step :: "tm_event \<Rightarrow> token_manager \<Rightarrow> token_manager" where
  "tm_step RefreshAccessToken s = refreshAccessToken s"
| "tm_step (ResponseArrives p (AuthResponse access refresh) now) s =
     (if p < length (tickets s) \<and> tickets s ! p = AwaitingResponse then
        (let s1 = setTokens access refresh now s in
         s1\<lparr>tickets := (tickets s1)[p := (if has_window s1 then UpdatingStore access
                                           else Resolved access)]\<rparr>)
      else s)"
| "tm_step (RequestFails p cause) s =
     (if p < length (tickets s) \<and> tickets s ! p = AwaitingResponse then
        s\<lparr>tickets := (tickets s)[p := RejectedWith refresh_failed]\<rparr>
      else s)"
| "tm_step (StoreUpdated p) s =
     (if p < length (tickets s) then
        (case tickets s ! p of
           UpdatingStore access \<Rightarrow> s\<lparr>tickets := (tickets s)[p := Resolved access]\<rparr>
         | _ \<Rightarrow> s)
      else s)"
| "tm_step (Resumes i) s = resume i s"
| "tm_step (SetTokens access refresh now) s = setTokens access refresh now s"
| "tm_step ClearTokens s = clearTokens s"
| "tm_step GetAccessToken s = snd (getAccessToken s)"

fun tm_run :: "tm_event list \<Rightarrow> token_manager \<Rightarrow> token_manager" where
  "tm_run [] s = s"
| "tm_run (ev # evs) s = tm_run evs (tm_step ev s)"

text \<open>A token manager as the constructor leaves it, in a given environment.\<close>

definition new_token_manager ::
  "bool \<Rightarrow> bool \<Rightarrow> bool \<Rightarrow> (jsstring \<Rightarrow> jsstring option) \<Rightarrow> token_manager" where
  "new_token_manager production window available stored =
     \<lparr>accessToken = None, refreshToken = None, isRefreshing = False, refreshPromise = None,
      encryptTokens = production, has_window = window, storage_available = available,
      storage = stored, tickets = [], refresh_requests = [], calls = []\<rparr>"

text \<open>
  The fields that the renewal protocol reads and writes, and its invariant: the flag is
  set exactly when the slot is filled; a pending ticket is in the slot, so there is at
  most one; every ticket has sent one request; a rejected ticket carries the one error
  of \<open>performTokenRefresh\<close>; every call either threw for want of a refresh token or is
  pending or holds the outcome of its ticket; and the slot is filled exactly as long as
  the call that made its ticket has not been resumed.
\<close>

definition protocol ::
  "token_manager \<Rightarrow> bool \<times> nat option \<times> ticket list \<times> jsstring list \<times> refresh_call list" where
  "protocol s = (isRefreshing s, refreshPromise s, tickets s, refresh_requests s, calls s)"

definition call_ok :: "ticket list \<Rightarrow> refresh_call \<Rightarrow> bool" where
  "call_ok ts c =
     (case awaited c of
        None \<Rightarrow> \<not> leads c \<and> result c = Some (Inl no_refresh_token)
      | Some p \<Rightarrow> p < length ts \<and> (result c = None \<or> result c = ticket_outcome (ts ! p)))"

fun protocol_inv ::
  "bool \<times> nat option \<times> ticket list \<times> jsstring list \<times> refresh_call list \<Rightarrow> bool" where
  "protocol_inv (refreshing, slot, ts, requests, cs) =
     ((refreshing \<longleftrightarrow> slot \<noteq> None)
      \<and> (\<forall>p < length ts. ticket_outcome (ts ! p) = None \<longrightarrow> slot = Some p)
      \<and> length requests = length ts
      \<and> (\<forall>p < length ts. \<forall>e. ts ! p = RejectedWith e \<longrightarrow> e = refresh_failed)
      \<and> list_all (call_ok ts) cs
      \<and> (\<forall>i < length cs. leads (cs ! i) \<and> result (cs ! i) = None \<longrightarrow> slot = awaited (cs ! i))
      \<and> (\<forall>i < length cs. \<forall>j < length cs.
            leads (cs ! i) \<and> leads (cs ! j) \<and> awaited (cs ! i) = awaited (cs ! j) \<longrightarrow> i = j)
      \<and> (\<forall>p. slot = Some p \<longrightarrow>
            (\<exists>i < length cs. leads (cs ! i) \<and> awaited (cs ! i) = Some p
                \<and> result (cs ! i) = None)))"

definition tm_inv :: "token_manager \<Rightarrow> bool" where
  "tm_inv s = protocol_inv (protocol s)"

text \<open>
  \<open>resumable i p settled s\<close>: call \<open>i\<close> is pending and awaits ticket \<open>p\<close>, which has
  settled: resuming the call does something.
\<close>

definition resumable :: "nat \<Rightarrow> nat \<Rightarrow> js_error + jsstring \<Rightarrow> token_manager \<Rightarrow> bool" where
  "resumable i p settled s =
     (i < length (calls s) \<and> result (calls s ! i) = None
      \<and> awaited (calls s ! i) = Some p \<and> outcome_at s p = Some settled)"


section \<open>Bounded retry (lib/request-deduplicator, \<open>retryableRequest\<close>)\<close>





















section \<open>Properties of the failure classifier\<close>

lemmas http_status_defs =
  HTTP_STATUS_UNAUTHORIZED_def HTTP_STATUS_FORBIDDEN_def HTTP_STATUS_NOT_FOUND_def
  HTTP_STATUS_CONFLICT_def HTTP_STATUS_UNPROCESSABLE_ENTITY_def
  HTTP_STATUS_INTERNAL_SERVER_ERROR_def

lemma getErrorTypeByStatus_table: "getErrorTypeByStatus s = decision_table s"
  by (simp add: decision_table_def http_status_defs)

text \<open>
  Away from a \<^verbatim>\<open>response\<close> property that holds \<^verbatim>\<open>null\<close> or \<^verbatim>\<open>undefined\<close>,
  \<open>classify\<close> returns a structured failure.
\<close>

lemma classify_returns:
  "response_of e \<noteq> ResponseNullish \<Longrightarrow> \<exists>sf. classify e = Inr sf"
  by (cases e; cases "response_of e")
     (auto simp: has_response_def simp del: getErrorTypeByStatus.simps)

text \<open>
  Claim C3. \<open>classify\<close> is meant to be total: whatever value it is given, it returns one
  structured failure and never raises. It does raise: for an object that owns a
  \<^verbatim>\<open>response\<close> property holding \<^verbatim>\<open>null\<close> or \<^verbatim>\<open>undefined\<close>, such as
  \<^verbatim>\<open>{ response: undefined }\<close>, the guard \<^verbatim>\<open>"response" in error\<close> passes and
  \<^verbatim>\<open>httpError.response.status\<close> raises a \<^verbatim>\<open>TypeError\<close> that \<open>classify\<close> does not catch.
\<close>

theorem classify_raises_on_nullish_response:
  "classify (ThrownObject None ResponseNullish) = Inl TypeError"
  by (simp add: has_response_def)

text \<open>
  Claim C4, the transport row as the specification has it: a transport-level failure
  before a response yields \<open>NETWORK_ERROR\<close>. It does not always: when the request of a
  React Native application gets no response, \<^verbatim>\<open>fetch\<close> rejects with
  \<^verbatim>\<open>TypeError("Network request failed")\<close>, a transport failure whose message does not
  contain "fetch", and \<open>classify\<close> returns \<open>UNKNOWN_ERROR\<close> for it.
\<close>

theorem classify_transport_failure_counterexample:
  "spec_transport_failure
     (ThrownError (js ''TypeError'') (js ''Network request failed'') ResponseAbsent)
   \<and> kind_of (classify
        (ThrownError (js ''TypeError'') (js ''Network request failed'') ResponseAbsent))
     = Some UNKNOWN_ERROR"
  by (simp add: has_response_def js_def)

text \<open>
  Claim C4, amended. A failure carrying a response of status \<open>s\<close> gets the table's kind
  for \<open>s\<close>: 401, 403, 404, 409, 422 and 500 their own kinds, any other status from 400 to
  499 a validation error, any other status from 500 on a server error, a status below
  400 an unknown error. A value without a \<^verbatim>\<open>response\<close> property gets \<open>NETWORK_ERROR\<close>
  exactly when it is an \<^verbatim>\<open>Error\<close> named \<^verbatim>\<open>TypeError\<close> whose message contains "fetch",
  and \<open>UNKNOWN_ERROR\<close> otherwise: an \<^verbatim>\<open>Error\<close> of another name or message, a string, an
  object that is no \<^verbatim>\<open>Error\<close>, any other value. So a transport failure gets
  \<open>NETWORK_ERROR\<close> if the platform's message for it contains "fetch", and \<open>UNKNOWN_ERROR\<close>
  if it does not.
\<close>

theorem classify_decision_table:
  "(response_of e = Response s \<longrightarrow> kind_of (classify e) = Some (decision_table s))
   \<and> kind_of (classify (ThrownError nm msg ResponseAbsent))
     = Some (if nm = js ''TypeError'' \<and> js_includes msg (js ''fetch'')
             then NETWORK_ERROR else UNKNOWN_ERROR)
   \<and> kind_of (classify (ThrownString str)) = Some UNKNOWN_ERROR
   \<and> kind_of (classify (ThrownObject m ResponseAbsent)) = Some UNKNOWN_ERROR
   \<and> kind_of (classify ThrownOther) = Some UNKNOWN_ERROR
   \<and> (spec_transport_failure e \<longrightarrow>
        (\<exists>msg'. message_of e = Some msg'
           \<and> kind_of (classify e)
             = Some (if js_includes msg' (js ''fetch'')
                     then NETWORK_ERROR else UNKNOWN_ERROR)))"
  by (cases e)
     (auto simp: has_response_def getErrorTypeByStatus_table
           simp del: getErrorTypeByStatus.simps)

theorem classify_decision_table_witness:
  "kind_of (classify (ThrownError (js ''HTTPError'') (js ''Not Found'') (Response 404)))
     = Some NOT_FOUND_ERROR
   \<and> kind_of (classify (ThrownError (js ''HTTPError'') (js ''I am a teapot'') (Response 418)))
     = Some VALIDATION_ERROR
   \<and> kind_of (classify (ThrownError (js ''HTTPError'') (js ''Bad Gateway'') (Response 502)))
     = Some SERVER_ERROR
   \<and> kind_of (classify (ThrownError (js ''HTTPError'') (js ''Not Modified'') (Response 304)))
     = Some UNKNOWN_ERROR
   \<and> kind_of (classify (ThrownError (js ''TypeError'') (js ''Failed to fetch'') ResponseAbsent))
     = Some NETWORK_ERROR"
proof -
  note T = classify_decision_table
  have a: "kind_of (classify (ThrownError (js ''HTTPError'') (js ''Not Found'') (Response 404)))
           = Some NOT_FOUND_ERROR"
    using T [of "ThrownError (js ''HTTPError'') (js ''Not Found'') (Response 404)" 404]
    by (simp add: decision_table_def)
  have b: "kind_of (classify (ThrownError (js ''HTTPError'') (js ''I am a teapot'') (Response 418)))
           = Some VALIDATION_ERROR"
    using T [of "ThrownError (js ''HTTPError'') (js ''I am a teapot'') (Response 418)" 418]
    by (simp add: decision_table_def)
  have c: "kind_of (classify (ThrownError (js ''HTTPError'') (js ''Bad Gateway'') (Response 502)))
           = Some SERVER_ERROR"
    using T [of "ThrownError (js ''HTTPError'') (js ''Bad Gateway'') (Response 502)" 502]
    by (simp add: decision_table_def)
  have d: "kind_of (classify (ThrownError (js ''HTTPError'') (js ''Not Modified'') (Response 304)))
           = Some UNKNOWN_ERROR"
    using T [of "ThrownError (js ''HTTPError'') (js ''Not Modified'') (Response 304)" 304]
    by (simp add: decision_table_def)
  have "spec_transport_failure
          (ThrownError (js ''TypeError'') (js ''Failed to fetch'') ResponseAbsent)"
    by simp
  with T [of "ThrownError (js ''TypeError'') (js ''Failed to fetch'') ResponseAbsent"]
  have e: "kind_of (classify (ThrownError (js ''TypeError'') (js ''Failed to fetch'') ResponseAbsent))
           = Some NETWORK_ERROR"
    by (simp add: js_def)
  from a b c d e show ?thesis by blast
qed

section \<open>Properties of the periodic sweep\<close>

lemma expired_loop_filter:
  "expired_loop now m =
     (map (\<lambda>(key, request). controller request) (filter (\<lambda>(key, request). is_expired now request) m),
      map fst (filter (\<lambda>(key, request). is_expired now request) m))"
  by (induction m) (auto simp: is_expired_def PENDING_TIMEOUT_def split: prod.splits)

lemma delete_keys_filter:
  "delete_keys keys m = filter (\<lambda>(key, request). key \<notin> set keys) m"
proof (induction keys arbitrary: m)
  case Nil
  then show ?case by simp
next
  case (Cons k ks)
  have "AList.delete k m = filter (\<lambda>(key, request). key \<noteq> k) m"
    by (auto simp: AList.delete_eq intro: filter_cong)
  then show ?case
    using Cons by (auto intro: filter_cong)
qed

lemma distinct_keys_filter:
  assumes "distinct (map fst m)"
  shows "filter (\<lambda>(key, request). key \<notin> fst ` set (filter (\<lambda>(key, request). P request) m)) m
           = filter (\<lambda>(key, request). \<not> P request) m"
proof (rule filter_cong[OF refl])
  fix x assume x: "x \<in> set m"
  obtain k r where kr: "x = (k, r)" by (cases x)
  have "k \<in> fst ` set (filter (\<lambda>(key, request). P request) m) \<longleftrightarrow> P r"
  proof
    assume "k \<in> fst ` set (filter (\<lambda>(key, request). P request) m)"
    then obtain r' where r': "(k, r') \<in> set m" "P r'" by auto
    from assms x r' kr have "r' = r" by (meson eq_key_imp_eq_value)
    with r' show "P r" by simp
  next
    assume "P r"
    with x kr show "k \<in> fst ` set (filter (\<lambda>(key, request). P request) m)" by force
  qed
  then show "(case x of (key, request) \<Rightarrow> key \<notin> fst ` set (filter (\<lambda>(key, request). P request) m))
     = (case x of (key, request) \<Rightarrow> \<not> P request)"
    by (simp add: kr)
qed

lemma cleanup_pending:
  assumes "distinct (map fst (pendingRequests s))"
  shows "pendingRequests (cleanupExpiredRequests now s)
           = filter (\<lambda>(key, request). \<not> is_expired now request) (pendingRequests s)"
  using distinct_keys_filter[OF assms, of "is_expired now"]
  by (simp add: cleanupExpiredRequests_def expired_loop_filter delete_keys_filter)

lemma cleanup_aborts:
  "abort_calls (cleanupExpiredRequests now s)
     = abort_calls s @ map (\<lambda>(key, request). controller request)
         (filter (\<lambda>(key, request). is_expired now request) (pendingRequests s))"
  by (simp add: cleanupExpiredRequests_def expired_loop_filter)

text \<open>
  Claim C9. One run of the periodic sweep (every sixty seconds) calls \<^verbatim>\<open>abort()\<close> on the
  controller of every entry older than the pending timeout of thirty seconds and removes
  exactly those entries, so the registry no longer holds them; every other entry stays
  as it was. The registry is a \<^verbatim>\<open>Map\<close>: it holds one entry per key.
\<close>

theorem cleanupExpiredRequests_sweeps:
  assumes "distinct (map fst (pendingRequests s))"
  shows "PENDING_TIMEOUT = 30000 \<and> CLEANUP_INTERVAL = 60000
    \<and> (\<forall>(key, request) \<in> set (pendingRequests s).
          if now - timestamp request > PENDING_TIMEOUT
          then controller request \<in> set (abort_calls (cleanupExpiredRequests now s))
             \<and> map_of (pendingRequests (cleanupExpiredRequests now s)) key = None
          else map_of (pendingRequests (cleanupExpiredRequests now s)) key = Some request)
    \<and> pendingRequests (cleanupExpiredRequests now s)
         = filter (\<lambda>(key, request). \<not> now - timestamp request > PENDING_TIMEOUT) (pendingRequests s)
    \<and> abort_calls (cleanupExpiredRequests now s)
         = abort_calls s @ map (\<lambda>(key, request). controller request)
             (filter (\<lambda>(key, request). now - timestamp request > PENDING_TIMEOUT) (pendingRequests s))
    \<and> operations (cleanupExpiredRequests now s) = operations s"
proof -
  let ?s' = "cleanupExpiredRequests now s"
  have p: "pendingRequests ?s'
           = filter (\<lambda>(key, request). \<not> is_expired now request) (pendingRequests s)"
    by (rule cleanup_pending[OF assms])
  have d: "distinct (map fst (pendingRequests ?s'))"
    unfolding p using assms by (simp add: distinct_map_filter)
  have each: "\<And>key request. (key, request) \<in> set (pendingRequests s) \<Longrightarrow>
          (if is_expired now request
          then controller request \<in> set (abort_calls ?s')
             \<and> map_of (pendingRequests ?s') key = None
          else map_of (pendingRequests ?s') key = Some request)"
  proof -
    fix key request assume m: "(key, request) \<in> set (pendingRequests s)"
    show "(if is_expired now request
          then controller request \<in> set (abort_calls ?s')
             \<and> map_of (pendingRequests ?s') key = None
          else map_of (pendingRequests ?s') key = Some request)"
    proof (cases "is_expired now request")
      case True
      have "controller request \<in> set (abort_calls ?s')"
        unfolding cleanup_aborts using m True by force
      moreover have "map_of (pendingRequests ?s') key = None"
      proof (rule ccontr)
        assume "map_of (pendingRequests ?s') key \<noteq> None"
        then obtain r' where "map_of (pendingRequests ?s') key = Some r'" by auto
        then have "(key, r') \<in> set (pendingRequests ?s')" by (rule map_of_SomeD)
        then have r': "(key, r') \<in> set (pendingRequests s)" "\<not> is_expired now r'"
          unfolding p by auto
        with assms m have "r' = request" by (meson eq_key_imp_eq_value)
        with r' True show False by simp
      qed
      ultimately show ?thesis using True by simp
    next
      case False
      with m have "(key, request) \<in> set (pendingRequests ?s')" unfolding p by simp
      with d have "map_of (pendingRequests ?s') key = Some request" by simp
      with False show ?thesis by simp
    qed
  qed
  have ops: "operations ?s' = operations s"
    by (simp add: cleanupExpiredRequests_def split: prod.splits)
  have all: "\<forall>(key, request) \<in> set (pendingRequests s).
          if is_expired now request
          then controller request \<in> set (abort_calls ?s')
             \<and> map_of (pendingRequests ?s') key = None
          else map_of (pendingRequests ?s') key = Some request"
    using each by blast
  show ?thesis
    using all p ops cleanup_aborts[of now s]
    unfolding is_expired_def PENDING_TIMEOUT_def CLEANUP_INTERVAL_def
    by simp
qed

theorem cleanupExpiredRequests_sweeps_witness:
  "pendingRequests (cleanupExpiredRequests 60000
      \<lparr>pendingRequests =
          [(js ''GET:users:'', \<lparr>promise = 0, controller = 0, timestamp = 1000\<rparr>),
           (js ''GET:posts:'', \<lparr>promise = 1, controller = 1, timestamp = 30000\<rparr>)],
        operations = [\<lparr>op_key = js ''GET:users:'', outcome = None\<rparr>,
                      \<lparr>op_key = js ''GET:posts:'', outcome = (None :: (unit + unit) option)\<rparr>],
        abort_calls = [], returned = []\<rparr>)
     = [(js ''GET:posts:'', \<lparr>promise = 1, controller = 1, timestamp = 30000\<rparr>)]
   \<and> abort_calls (cleanupExpiredRequests 60000
      \<lparr>pendingRequests =
          [(js ''GET:users:'', \<lparr>promise = 0, controller = 0, timestamp = 1000\<rparr>),
           (js ''GET:posts:'', \<lparr>promise = 1, controller = 1, timestamp = 30000\<rparr>)],
        operations = [\<lparr>op_key = js ''GET:users:'', outcome = None\<rparr>,
                      \<lparr>op_key = js ''GET:posts:'', outcome = (None :: (unit + unit) option)\<rparr>],
        abort_calls = [], returned = []\<rparr>) = [0]"
proof -
  let ?s = "\<lparr>pendingRequests =
          [(js ''GET:users:'', \<lparr>promise = 0, controller = 0, timestamp = 1000\<rparr>),
           (js ''GET:posts:'', \<lparr>promise = 1, controller = 1, timestamp = 30000\<rparr>)],
        operations = [\<lparr>op_key = js ''GET:users:'', outcome = None\<rparr>,
                      \<lparr>op_key = js ''GET:posts:'', outcome = (None :: (unit + unit) option)\<rparr>],
        abort_calls = [], returned = []\<rparr>"
  have d: "distinct (map fst (pendingRequests ?s))"
    by (simp add: js_def)
  note T = cleanupExpiredRequests_sweeps[OF d, of 60000]
  from T have p: "pendingRequests (cleanupExpiredRequests 60000 ?s)
         = filter (\<lambda>(key, request). \<not> 60000 - timestamp request > PENDING_TIMEOUT)
             (pendingRequests ?s)"
    by blast
  from T have a: "abort_calls (cleanupExpiredRequests 60000 ?s)
         = abort_calls ?s @ map (\<lambda>(key, request). controller request)
             (filter (\<lambda>(key, request). 60000 - timestamp request > PENDING_TIMEOUT)
                (pendingRequests ?s))"
    by blast
  show ?thesis
    unfolding p a by (simp add: PENDING_TIMEOUT_def)
qed

section \<open>Properties of the deduplication registry\<close>

lemma registry_inv_empty: "registry_inv empty_registry"
  by (simp add: registry_inv_def empty_registry_def)

lemma deduplicate_hit:
  "map_of (pendingRequests s) key = Some r \<Longrightarrow>
   deduplicate key now s = (promise r, s\<lparr>returned := returned s @ [(key, promise r)]\<rparr>)"
  by (simp add: deduplicate_def)

lemma deduplicate_miss:
  "map_of (pendingRequests s) key = None \<Longrightarrow>
   deduplicate key now s =
     (length (operations s),
      s\<lparr>operations := operations s @ [\<lparr>op_key = key, outcome = None\<rparr>],
        pendingRequests :=
          AList.update key
            \<lparr>promise = length (operations s), controller = length (operations s), timestamp = now\<rparr>
            (pendingRequests s),
        returned := returned s @ [(key, length (operations s))]\<rparr>)"
  by (simp add: deduplicate_def Let_def)

lemma registry_inv_returned [simp]:
  "registry_inv (s\<lparr>returned := x\<rparr>) = registry_inv s"
  by (simp add: registry_inv_def)

lemma registry_inv_cong:
  "\<lbrakk>pendingRequests s' = pendingRequests s; operations s' = operations s\<rbrakk>
   \<Longrightarrow> registry_inv s' = registry_inv s"
  by (simp add: registry_inv_def)

lemma in_flight_cong:
  "\<lbrakk>pendingRequests s' = pendingRequests s; operations s' = operations s;
    returned s' = returned s\<rbrakk>
   \<Longrightarrow> in_flight key n t0 r0 s' = in_flight key n t0 r0 s"
  by (simp add: in_flight_def)

lemma registry_invD:
  assumes "registry_inv s" "map_of (pendingRequests s) k = Some r"
  shows "promise r < length (operations s)"
    and "op_key (operations s ! promise r) = k"
    and "outcome (operations s ! promise r) = None"
  using assms unfolding registry_inv_def by blast+

lemma registry_inv_distinct:
  "registry_inv s \<Longrightarrow> distinct (map fst (pendingRequests s))"
  by (simp add: registry_inv_def)

text \<open>Entries are only ever taken away from the registry, except by \<open>deduplicate\<close>.\<close>

lemma registry_inv_fewer:
  assumes inv: "registry_inv s"
    and d: "distinct (map fst m)"
    and sub: "\<And>k r. map_of m k = Some r \<Longrightarrow> map_of (pendingRequests s) k = Some r"
  shows "registry_inv (s\<lparr>pendingRequests := m\<rparr>)"
  unfolding registry_inv_def
proof (intro conjI allI impI)
  show "distinct (map fst (pendingRequests (s\<lparr>pendingRequests := m\<rparr>)))"
    using d by simp
next
  fix k r
  assume "map_of (pendingRequests (s\<lparr>pendingRequests := m\<rparr>)) k = Some r"
  then have "map_of (pendingRequests s) k = Some r"
    using sub by simp
  from registry_invD[OF inv this]
  show "promise r < length (operations (s\<lparr>pendingRequests := m\<rparr>))"
    and "op_key (operations (s\<lparr>pendingRequests := m\<rparr>) ! promise r) = k"
    and "outcome (operations (s\<lparr>pendingRequests := m\<rparr>) ! promise r) = None"
    by simp_all
qed

lemma registry_inv_deduplicate:
  assumes "registry_inv s"
  shows "registry_inv (snd (deduplicate key now s))"
proof (cases "map_of (pendingRequests s) key")
  case (Some r)
  with assms show ?thesis
    by (simp add: deduplicate_hit)
next
  case None
  let ?n = "length (operations s)"
  let ?ops = "operations s @ [\<lparr>op_key = key, outcome = None\<rparr>]"
  let ?e = "\<lparr>promise = ?n, controller = ?n, timestamp = now\<rparr>"
  let ?m = "AList.update key ?e (pendingRequests s)"
  have d: "distinct (map fst ?m)"
    using assms by (simp add: registry_inv_def distinct_update)
  have m: "map_of ?m = (map_of (pendingRequests s))(key \<mapsto> ?e)"
    by (rule update_conv')
  have a: "\<forall>k r. map_of ?m k = Some r \<longrightarrow>
             promise r < length ?ops \<and> op_key (?ops ! promise r) = k
             \<and> outcome (?ops ! promise r) = None"
  proof (intro allI impI)
    fix k r assume kr: "map_of ?m k = Some r"
    show "promise r < length ?ops \<and> op_key (?ops ! promise r) = k
             \<and> outcome (?ops ! promise r) = None"
    proof (cases "k = key")
      case True
      with kr m have "r = ?e" by simp
      with True show ?thesis by simp
    next
      case False
      with kr m have "map_of (pendingRequests s) k = Some r" by simp
      with assms have "promise r < ?n \<and> op_key (operations s ! promise r) = k
             \<and> outcome (operations s ! promise r) = None"
        by (simp add: registry_inv_def)
      then show ?thesis by (simp add: nth_append)
    qed
  qed
  show ?thesis
    using d a by (simp add: deduplicate_miss[OF None] registry_inv_def)
qed

lemma registry_inv_settle:
  assumes "registry_inv s"
  shows "registry_inv (settle n v s)"
proof (cases "n < length (operations s) \<and> outcome (operations s ! n) = None")
  case False
  with assms show ?thesis by (auto simp: settle_def)
next
  case True
  let ?k = "op_key (operations s ! n)"
  let ?ops = "(operations s)[n := (operations s ! n)\<lparr>outcome := Some v\<rparr>]"
  let ?m = "AList.delete ?k (pendingRequests s)"
  have s': "settle n v s = s\<lparr>operations := ?ops, pendingRequests := ?m\<rparr>"
    using True by (simp add: settle_def)
  have d: "distinct (map fst ?m)"
    using assms by (simp add: registry_inv_def distinct_delete)
  have m: "map_of ?m = (map_of (pendingRequests s))(?k := None)"
    by (rule delete_conv')
  have a: "\<forall>k r. map_of ?m k = Some r \<longrightarrow>
             promise r < length ?ops \<and> op_key (?ops ! promise r) = k
             \<and> outcome (?ops ! promise r) = None"
  proof (intro allI impI)
    fix k r assume kr: "map_of ?m k = Some r"
    then have ne: "k \<noteq> ?k" and old: "map_of (pendingRequests s) k = Some r"
      by (auto simp: m split: if_splits)
    from assms old have p: "promise r < length (operations s)"
      "op_key (operations s ! promise r) = k" "outcome (operations s ! promise r) = None"
      by (simp_all add: registry_inv_def)
    from p(2) ne have "promise r \<noteq> n" by auto
    with p show "promise r < length ?ops \<and> op_key (?ops ! promise r) = k
             \<and> outcome (?ops ! promise r) = None"
      by simp
  qed
  show ?thesis
    unfolding s' using d a by (simp add: registry_inv_def)
qed

lemma registry_inv_cancelRequest:
  assumes "registry_inv s"
  shows "registry_inv (snd (cancelRequest key s))"
proof (cases "map_of (pendingRequests s) key")
  case None
  with assms show ?thesis by (simp add: cancelRequest_def)
next
  case (Some request)
  have "registry_inv (s\<lparr>pendingRequests := AList.delete key (pendingRequests s)\<rparr>)"
  proof (rule registry_inv_fewer[OF assms])
    show "distinct (map fst (AList.delete key (pendingRequests s)))"
      using registry_inv_distinct[OF assms] by (simp add: distinct_delete)
  next
    fix k r assume "map_of (AList.delete key (pendingRequests s)) k = Some r"
    then show "map_of (pendingRequests s) k = Some r"
      by (simp add: delete_conv' split: if_splits)
  qed
  moreover have "registry_inv (snd (cancelRequest key s))
      = registry_inv (s\<lparr>pendingRequests := AList.delete key (pendingRequests s)\<rparr>)"
    using Some by (intro registry_inv_cong) (simp_all add: cancelRequest_def)
  ultimately show ?thesis by simp
qed

lemma registry_inv_cancelAllRequests:
  "registry_inv s \<Longrightarrow> registry_inv (cancelAllRequests s)"
  by (simp add: cancelAllRequests_def registry_inv_def)

lemma cleanup_operations:
  "operations (cleanupExpiredRequests now s) = operations s"
  by (simp add: cleanupExpiredRequests_def split: prod.splits)

lemma cleanup_returned:
  "returned (cleanupExpiredRequests now s) = returned s"
  by (simp add: cleanupExpiredRequests_def split: prod.splits)

lemma map_of_filter_SomeD:
  assumes "distinct (map fst m)" "map_of (filter P m) k = Some r"
  shows "map_of m k = Some r"
proof -
  from assms(2) have "(k, r) \<in> set (filter P m)" by (rule map_of_SomeD)
  then have "(k, r) \<in> set m" by simp
  with assms(1) show ?thesis by simp
qed

lemma map_of_filter_SomeI:
  assumes "distinct (map fst m)" "map_of m k = Some r" "P (k, r)"
  shows "map_of (filter P m) k = Some r"
proof -
  from assms(2) have "(k, r) \<in> set m" by (rule map_of_SomeD)
  with assms(3) have "(k, r) \<in> set (filter P m)" by simp
  moreover have "distinct (map fst (filter P m))"
    using assms(1) by (rule distinct_map_filter)
  ultimately show ?thesis by simp
qed

lemma registry_inv_cleanupExpiredRequests:
  assumes "registry_inv s"
  shows "registry_inv (cleanupExpiredRequests now s)"
proof -
  note d = registry_inv_distinct[OF assms]
  let ?m = "filter (\<lambda>(key, request). \<not> is_expired now request) (pendingRequests s)"
  have "registry_inv (s\<lparr>pendingRequests := ?m\<rparr>)"
  proof (rule registry_inv_fewer[OF assms])
    show "distinct (map fst ?m)" using d by (rule distinct_map_filter)
  next
    fix k r assume "map_of ?m k = Some r"
    with d show "map_of (pendingRequests s) k = Some r" by (rule map_of_filter_SomeD)
  qed
  moreover have "registry_inv (cleanupExpiredRequests now s)
      = registry_inv (s\<lparr>pendingRequests := ?m\<rparr>)"
    by (intro registry_inv_cong) (simp_all add: cleanup_pending[OF d] cleanup_operations)
  ultimately show ?thesis by simp
qed

lemma registry_inv_step:
  "registry_inv s \<Longrightarrow> registry_inv (registry_step ev s)"
  by (cases ev)
     (simp_all add: registry_inv_deduplicate registry_inv_settle registry_inv_cancelRequest
        registry_inv_cancelAllRequests registry_inv_cleanupExpiredRequests)

lemma registry_inv_run:
  "registry_inv s \<Longrightarrow> registry_inv (registry_run evs s)"
proof (induction evs arbitrary: s)
  case Nil
  then show ?case by simp
next
  case (Cons ev evs)
  then show ?case by (simp add: registry_inv_step)
qed

lemma idle_no_entry:
  assumes "registry_inv s" "idle key s"
  shows "map_of (pendingRequests s) key = None"
proof (rule ccontr)
  assume "map_of (pendingRequests s) key \<noteq> None"
  then obtain r where r: "map_of (pendingRequests s) key = Some r" by auto
  note p = registry_invD[OF assms(1) r]
  from assms(2) p(1) have
    "op_key (operations s ! promise r) = key \<longrightarrow> outcome (operations s ! promise r) \<noteq> None"
    by (simp add: idle_def list_all_length)
  with p show False by simp
qed

lemma in_flight_deduplicate:
  assumes "in_flight key n t0 r0 s"
  shows "in_flight key n t0 r0 (snd (deduplicate k now s))"
proof (cases "map_of (pendingRequests s) k")
  case (Some r)
  have "k = key \<longrightarrow> promise r = n"
    using assms Some by (auto simp: in_flight_def)
  with assms show ?thesis
    by (auto simp: deduplicate_hit[OF Some] in_flight_def)
next
  case None
  with assms have ne: "k \<noteq> key" by (auto simp: in_flight_def)
  let ?e = "\<lparr>promise = length (operations s), controller = length (operations s), timestamp = now\<rparr>"
  have m: "map_of (AList.update k ?e (pendingRequests s)) key = map_of (pendingRequests s) key"
    using ne by (simp add: update_conv')
  show ?thesis
    using assms ne unfolding deduplicate_miss[OF None] in_flight_def
    by (auto simp: m nth_append simp del: map_of_eq_Some_iff)
qed

lemma op_key_settled [simp]:
  "m < length ops \<Longrightarrow> op_key (ops[m := (ops ! m)\<lparr>outcome := x\<rparr>] ! j) = op_key (ops ! j)"
  by (cases "j = m") simp_all

lemma outcome_settled_other [simp]:
  "j \<noteq> m \<Longrightarrow> outcome (ops[m := y] ! j) = outcome (ops ! j)"
  by simp

lemma in_flight_only_running:
  assumes "in_flight key n t0 r0 s"
    and "m < length (operations s)" "op_key (operations s ! m) = key"
    and "outcome (operations s ! m) = None"
  shows "m = n"
proof (rule ccontr)
  assume "m \<noteq> n"
  then consider "m < n" | "n < m" by linarith
  then show False
  proof cases
    case 1
    with assms show False by (auto simp: in_flight_def)
  next
    case 2
    with assms show False by (auto simp: in_flight_def)
  qed
qed

lemma in_flight_settle:
  assumes "in_flight key n t0 r0 s" "m \<noteq> n"
  shows "in_flight key n t0 r0 (settle m v s)"
proof (cases "m < length (operations s) \<and> outcome (operations s ! m) = None")
  case False
  with assms show ?thesis by (auto simp: settle_def)
next
  case True
  let ?k = "op_key (operations s ! m)"
  have s': "settle m v s = s\<lparr>operations := (operations s)[m := (operations s ! m)\<lparr>outcome := Some v\<rparr>],
      pendingRequests := AList.delete ?k (pendingRequests s)\<rparr>"
    using True by (simp add: settle_def)
  have ne: "?k \<noteq> key"
  proof
    assume "?k = key"
    with assms(1) True have "m = n"
      using in_flight_only_running[of key n t0 r0 s m] by simp
    with assms(2) show False by simp
  qed
  have mp: "map_of (AList.delete ?k (pendingRequests s)) key = map_of (pendingRequests s) key"
    using ne by (simp add: delete_conv')
  have older: "\<forall>j < n. op_key ((operations s)[m := (operations s ! m)\<lparr>outcome := Some v\<rparr>] ! j) = key
      \<longrightarrow> outcome ((operations s)[m := (operations s ! m)\<lparr>outcome := Some v\<rparr>] ! j) \<noteq> None"
  proof (intro allI impI)
    fix j assume j: "j < n"
      and k: "op_key ((operations s)[m := (operations s ! m)\<lparr>outcome := Some v\<rparr>] ! j) = key"
    show "outcome ((operations s)[m := (operations s ! m)\<lparr>outcome := Some v\<rparr>] ! j) \<noteq> None"
    proof (cases "j = m")
      case True
      with \<open>m < length (operations s) \<and> outcome (operations s ! m) = None\<close> show ?thesis by simp
    next
      case False
      with j k True assms(1) show ?thesis by (simp add: in_flight_def)
    qed
  qed
  show ?thesis
    using assms ne True older unfolding s' in_flight_def
    by (simp add: mp del: map_of_eq_Some_iff)
qed

lemma in_flight_cancelRequest:
  assumes "in_flight key n t0 r0 s" "k \<noteq> key"
  shows "in_flight key n t0 r0 (snd (cancelRequest k s))"
proof -
  have "map_of (AList.delete k (pendingRequests s)) key = map_of (pendingRequests s) key"
    using assms(2) by (simp add: delete_conv')
  then have "in_flight key n t0 r0 (s\<lparr>pendingRequests := AList.delete k (pendingRequests s)\<rparr>)"
    using assms(1) by (simp add: in_flight_def del: map_of_eq_Some_iff)
  moreover have "in_flight key n t0 r0 (snd (cancelRequest k s))
      = in_flight key n t0 r0 (s\<lparr>pendingRequests := AList.delete k (pendingRequests s)\<rparr>)"
  proof (cases "map_of (pendingRequests s) k")
    case None
    then have "AList.delete k (pendingRequests s) = pendingRequests s"
      by (auto simp: AList.delete_eq map_of_eq_None_iff filter_id_conv image_iff)
    with None show ?thesis by (simp add: cancelRequest_def)
  next
    case (Some request)
    then show ?thesis by (intro in_flight_cong) (simp_all add: cancelRequest_def)
  qed
  ultimately show ?thesis by simp
qed

lemma in_flight_cleanupExpiredRequests:
  assumes inv: "registry_inv s" and f: "in_flight key n t0 r0 s"
    and young: "\<not> now - t0 > PENDING_TIMEOUT"
  shows "in_flight key n t0 r0 (cleanupExpiredRequests now s)"
proof -
  note d = registry_inv_distinct[OF inv]
  let ?P = "\<lambda>(key, request). \<not> is_expired now request"
  from f obtain r where r: "map_of (pendingRequests s) key = Some r" "promise r = n"
      "timestamp r = t0"
    unfolding in_flight_def by blast
  have "?P (key, r)"
    using young r(3) by (simp add: is_expired_def PENDING_TIMEOUT_def)
  with d r(1) have "map_of (filter ?P (pendingRequests s)) key = Some r"
    by (rule map_of_filter_SomeI)
  with r f have "in_flight key n t0 r0 (s\<lparr>pendingRequests := filter ?P (pendingRequests s)\<rparr>)"
    by (simp add: in_flight_def del: map_of_eq_Some_iff)
  moreover have "in_flight key n t0 r0 (cleanupExpiredRequests now s)
      = in_flight key n t0 r0 (s\<lparr>pendingRequests := filter ?P (pendingRequests s)\<rparr>)"
    by (intro in_flight_cong)
       (simp_all add: cleanup_pending[OF d] cleanup_operations cleanup_returned)
  ultimately show ?thesis by simp
qed

lemma in_flight_step:
  assumes "registry_inv s" "in_flight key n t0 r0 s" "keeps key n t0 ev"
  shows "in_flight key n t0 r0 (registry_step ev s)"
  using assms
  by (cases ev)
     (simp_all add: in_flight_deduplicate in_flight_settle in_flight_cancelRequest
        in_flight_cleanupExpiredRequests)

lemma in_flight_run:
  "\<lbrakk>registry_inv s; in_flight key n t0 r0 s; list_all (keeps key n t0) evs\<rbrakk>
   \<Longrightarrow> in_flight key n t0 r0 (registry_run evs s)"
proof (induction evs arbitrary: s)
  case Nil
  then show ?case by simp
next
  case (Cons ev evs)
  from Cons.prems have ev: "keeps key n t0 ev" and rest: "list_all (keeps key n t0) evs"
    by simp_all
  have i: "registry_inv (registry_step ev s)"
    using Cons.prems(1) by (rule registry_inv_step)
  have f: "in_flight key n t0 r0 (registry_step ev s)"
    using Cons.prems(1,2) ev by (rule in_flight_step)
  from Cons.IH[OF i f rest] show ?case by simp
qed

lemma in_flight_first_call:
  assumes "idle key s" "map_of (pendingRequests s) key = None"
  shows "in_flight key (length (operations s)) now (length (returned s))
           (snd (deduplicate key now s))"
proof -
  have older: "\<forall>m < length (operations s). op_key (operations s ! m) = key
      \<longrightarrow> outcome (operations s ! m) \<noteq> None"
    using assms(1) by (simp add: idle_def list_all_length)
  show ?thesis
    unfolding deduplicate_miss[OF assms(2)] in_flight_def
    using older by (auto simp: update_conv' nth_append)
qed

lemma in_flight_once:
  assumes "in_flight key n t0 r0 s"
  shows "filter (\<lambda>m. op_key (operations s ! m) = key) [n ..< length (operations s)] = [n]"
proof -
  from assms have n: "n < length (operations s)" "op_key (operations s ! n) = key"
    and later: "\<forall>m. n < m \<and> m < length (operations s) \<longrightarrow> op_key (operations s ! m) \<noteq> key"
    by (simp_all add: in_flight_def)
  have "[n ..< length (operations s)] = n # [Suc n ..< length (operations s)]"
    using n(1) by (simp add: upt_conv_Cons)
  moreover have "filter (\<lambda>m. op_key (operations s ! m) = key) [Suc n ..< length (operations s)] = []"
    using later by (auto simp: filter_empty_conv)
  ultimately show ?thesis using n(2) by simp
qed

lemma settle_removes:
  assumes "n < length (operations s)" "outcome (operations s ! n) = None"
  shows "map_of (pendingRequests (settle n v s)) (op_key (operations s ! n)) = None"
  using assms by (simp add: settle_def delete_conv')

lemmas registry_eval =
  empty_registry_def deduplicate_def settle_def cancelRequest_def cancelAllRequests_def
  cleanupExpiredRequests_def PENDING_TIMEOUT_def js_def Let_def

text \<open>
  Claim C2, as the specification has it: of the calls for one key made before the first
  of them settles, only the first starts an operation. Not so when the sweep runs in
  between: a call for \<open>k\<close> at time 0 starts operation 0; the sweep at 30001 takes the
  entry out of the registry, operation 0 still running (the sweep aborts its controller,
  which settles nothing by itself); a call for \<open>k\<close> at 30002 finds no entry and starts
  operation 1. Two operations of the key run at once, and the two callers hold different
  promises. (\<open>cancelRequest\<close> and \<open>cancelAllRequests\<close> do the same.)
\<close>

theorem deduplicate_sweep_counterexample:
  "operations (registry_run
      [Deduplicate (js ''k'') 0, CleanupExpiredRequests 30001, Deduplicate (js ''k'') 30002]
      (empty_registry :: (unit, unit) registry))
     = [\<lparr>op_key = js ''k'', outcome = None\<rparr>, \<lparr>op_key = js ''k'', outcome = None\<rparr>]
   \<and> returned (registry_run
      [Deduplicate (js ''k'') 0, CleanupExpiredRequests 30001, Deduplicate (js ''k'') 30002]
      (empty_registry :: (unit, unit) registry))
     = [(js ''k'', 0), (js ''k'', 1)]"
  by (simp add: registry_eval)

text \<open>
  Claim C2, amended. Take any run of the registry (calls, settlements, cancellations,
  sweeps) at whose end no operation of \<open>key\<close> is running. The next call for \<open>key\<close>, at
  time \<open>now\<close>, starts operation \<open>n\<close>. Let any events follow except those that take the
  entry of \<open>key\<close> out of the registry: the settlement of operation \<open>n\<close>,
  \<open>cancelRequest key\<close>, \<open>cancelAllRequests\<close>, and a sweep later than \<open>now + 30000\<close>. Then
  operation \<open>n\<close> is the only operation started for the key since that call and the only
  running operation of the key, every call for the key was handed its promise, a further
  call starts nothing, and the registry holds one entry per key, each standing for a
  running operation of its key. When operation \<open>n\<close> settles, with a result or with a
  failure, the entry of the key is removed.
\<close>

theorem deduplicate_single_flight:
  fixes evs evs' :: "('e, 'a) registry_event list" and key :: request_key and now :: int
  defines "s \<equiv> registry_run evs empty_registry"
  defines "n \<equiv> length (operations s)"
  defines "s2 \<equiv> registry_run evs' (snd (deduplicate key now s))"
  assumes idle: "idle key s"
    and kept: "list_all (keeps key n now) evs'"
  shows "fst (deduplicate key now s) = n
    \<and> filter (\<lambda>m. op_key (operations s2 ! m) = key) [n ..< length (operations s2)] = [n]
    \<and> (\<forall>m < length (operations s2).
          op_key (operations s2 ! m) = key \<and> outcome (operations s2 ! m) = None \<longrightarrow> m = n)
    \<and> outcome (operations s2 ! n) = None
    \<and> (\<forall>(k, p) \<in> set (drop (length (returned s)) (returned s2)). k = key \<longrightarrow> p = n)
    \<and> fst (deduplicate key now' s2) = n
    \<and> operations (snd (deduplicate key now' s2)) = operations s2
    \<and> distinct (map fst (pendingRequests s2))
    \<and> (\<forall>k r. map_of (pendingRequests s2) k = Some r \<longrightarrow>
          promise r < length (operations s2)
          \<and> op_key (operations s2 ! promise r) = k
          \<and> outcome (operations s2 ! promise r) = None)
    \<and> map_of (pendingRequests (settle n v s2)) key = None"
proof -
  have inv: "registry_inv s"
    unfolding s_def using registry_inv_empty by (rule registry_inv_run)
  have first: "map_of (pendingRequests s) key = None"
    using inv idle by (rule idle_no_entry)
  have f0: "in_flight key n now (length (returned s)) (snd (deduplicate key now s))"
    unfolding n_def using idle first by (rule in_flight_first_call)
  have inv1: "registry_inv (snd (deduplicate key now s))"
    using inv by (rule registry_inv_deduplicate)
  have f2: "in_flight key n now (length (returned s)) s2"
    unfolding s2_def using inv1 f0 kept by (rule in_flight_run)
  have inv2: "registry_inv s2"
    unfolding s2_def using inv1 by (rule registry_inv_run)
  from f2 obtain r where r: "map_of (pendingRequests s2) key = Some r" "promise r = n"
    and run: "n < length (operations s2)" "op_key (operations s2 ! n) = key"
      "outcome (operations s2 ! n) = None"
    and ret: "\<forall>(k, p) \<in> set (drop (length (returned s)) (returned s2)). k = key \<longrightarrow> p = n"
    unfolding in_flight_def by blast
  have a: "fst (deduplicate key now s) = n"
    unfolding n_def by (simp add: deduplicate_miss[OF first])
  have b: "filter (\<lambda>m. op_key (operations s2 ! m) = key) [n ..< length (operations s2)] = [n]"
    using f2 by (rule in_flight_once)
  have b': "\<forall>m < length (operations s2).
          op_key (operations s2 ! m) = key \<and> outcome (operations s2 ! m) = None \<longrightarrow> m = n"
    using in_flight_only_running[OF f2] by blast
  have c: "fst (deduplicate key now' s2) = n \<and> operations (snd (deduplicate key now' s2)) = operations s2"
    using r by (simp add: deduplicate_hit[OF r(1)])
  have d: "distinct (map fst (pendingRequests s2))"
    using inv2 by (rule registry_inv_distinct)
  have e: "\<forall>k r. map_of (pendingRequests s2) k = Some r \<longrightarrow>
          promise r < length (operations s2)
          \<and> op_key (operations s2 ! promise r) = k
          \<and> outcome (operations s2 ! promise r) = None"
    using inv2 unfolding registry_inv_def by blast
  have f: "map_of (pendingRequests (settle n v s2)) key = None"
    using settle_removes[OF run(1) run(3), of v] run(2) by simp
  show ?thesis using a b b' run(3) ret c d e f by blast
qed

theorem deduplicate_single_flight_witness:
  "fst (deduplicate (js ''GET:users:'') 40000
         (registry_run
            [Deduplicate (js ''GET:users:'') 5, CleanupExpiredRequests 30000,
             Deduplicate (js ''GET:posts:'') 6, CancelRequest (js ''GET:posts:''),
             Deduplicate (js ''GET:users:'') 7, Settle 0 (Inr ())]
            (snd (deduplicate (js ''GET:users:'') 1
               (registry_run
                  [Deduplicate (js ''GET:users:'') 0, CancelAllRequests, Settle 0 (Inl ())]
                  (empty_registry :: (unit, unit) registry)))))) = 1
   \<and> returned (registry_run
            [Deduplicate (js ''GET:users:'') 5, CleanupExpiredRequests 30000,
             Deduplicate (js ''GET:posts:'') 6, CancelRequest (js ''GET:posts:''),
             Deduplicate (js ''GET:users:'') 7, Settle 0 (Inr ())]
            (snd (deduplicate (js ''GET:users:'') 1
               (registry_run
                  [Deduplicate (js ''GET:users:'') 0, CancelAllRequests, Settle 0 (Inl ())]
                  (empty_registry :: (unit, unit) registry)))))
      = [(js ''GET:users:'', 0), (js ''GET:users:'', 1), (js ''GET:users:'', 1),
         (js ''GET:posts:'', 2), (js ''GET:users:'', 1)]"
proof -
  let ?key = "js ''GET:users:''"
  let ?evs = "[Deduplicate ?key 0, CancelAllRequests, Settle 0 (Inl ())]
                :: (unit, unit) registry_event list"
  let ?evs' = "[Deduplicate ?key 5, CleanupExpiredRequests 30000,
             Deduplicate (js ''GET:posts:'') 6, CancelRequest (js ''GET:posts:''),
             Deduplicate ?key 7, Settle 0 (Inr ())] :: (unit, unit) registry_event list"
  let ?s = "registry_run ?evs (empty_registry :: (unit, unit) registry)"
  have ops: "operations ?s = [\<lparr>op_key = ?key, outcome = Some (Inl ())\<rparr>]"
    by (simp add: registry_eval)
  have h1: "idle ?key ?s"
    unfolding idle_def ops by simp
  have h2: "list_all (keeps ?key (length (operations ?s)) 1) ?evs'"
    unfolding ops by (simp add: PENDING_TIMEOUT_def js_def)
  from deduplicate_single_flight[OF h1 h2, of 40000]
  have "fst (deduplicate ?key 40000 (registry_run ?evs' (snd (deduplicate ?key 1 ?s))))
        = length (operations ?s)"
    by blast
  then have a: "fst (deduplicate ?key 40000 (registry_run ?evs' (snd (deduplicate ?key 1 ?s)))) = 1"
    unfolding ops by simp
  have b: "returned (registry_run ?evs' (snd (deduplicate ?key 1 ?s)))
      = [(?key, 0), (?key, 1), (?key, 1), (js ''GET:posts:'', 2), (?key, 1)]"
    by (simp add: registry_eval)
  show ?thesis using a b by blast
qed

section \<open>Properties of the credential transform\<close>

subsection \<open>Base64\<close>

lemma b64_value_char: "n < 64 \<Longrightarrow> b64_value (b64_char n) = Some n"
  by (auto simp: b64_value_def b64_char_def)

lemma b64_char_not_space: "n < 64 \<Longrightarrow> \<not> is_ascii_whitespace (b64_char n)"
  by (auto simp: is_ascii_whitespace_def b64_char_def)

lemma b64_char_not_pad: "n < 64 \<Longrightarrow> b64_char n \<noteq> 61"
  by (auto simp: b64_char_def)

lemma sextets_small:
  "list_all (\<lambda>c. c < 256) s \<Longrightarrow> list_all (\<lambda>v. v < 64) (base64_sextets s)"
  by (induction s rule: base64_sextets.induct) auto

lemma b64_first: "(a::nat) div 4 * 4 + (a mod 4 * 16 + b div 16) div 16 = a" if "b < 256"
proof -
  have "b div 16 < 16" using that by simp
  then have "(a mod 4 * 16 + b div 16) div 16 = a mod 4" by simp
  then show ?thesis by simp
qed

lemma b64_second: "((a::nat) mod 4 * 16 + b div 16) mod 16 * 16 + (b mod 16 * 4 + c div 64) div 4 = b" if "b < 256" "c < 256"
proof -
  have "b div 16 < 16" "c div 64 < 4" using that by simp_all
  then have "(a mod 4 * 16 + b div 16) mod 16 = b div 16"
    "(b mod 16 * 4 + c div 64) div 4 = b mod 16" by simp_all
  then show ?thesis by simp
qed

lemma b64_third: "((b::nat) mod 16 * 4 + c div 64) mod 4 * 64 + c mod 64 = c" if "c < 256"
proof -
  have "c div 64 < 4" using that by simp
  then have "(b mod 16 * 4 + c div 64) mod 4 = c div 64" by simp
  then show ?thesis by simp
qed

lemma b64_second_last: "((a::nat) mod 4 * 16 + b div 16) mod 16 * 16 + (b mod 16 * 4) div 4 = b" if "b < 256"
proof -
  have "b div 16 < 16" using that by simp
  then have "(a mod 4 * 16 + b div 16) mod 16 = b div 16" by simp
  then show ?thesis by simp
qed

lemma b64_first_last: "(a::nat) div 4 * 4 + (a mod 4 * 16) div 16 = a"
  by simp

lemma octets_sextets:
  "list_all (\<lambda>c. c < 256) s \<Longrightarrow> base64_octets (base64_sextets s) = s"
proof (induction s rule: base64_sextets.induct)
  case (1 a b c rest)
  then have "b < 256" "c < 256" by simp_all
  with 1 show ?case
    by (simp add: b64_first b64_second b64_third)
next
  case (2 a b)
  then have "b < 256" by simp
  then show ?case
    by (simp add: b64_first b64_second_last)
next
  case (3 a)
  show ?case by (simp add: b64_first_last)
next
  case 4
  then show ?case by simp
qed

lemma sextets_length:
  "length (base64_sextets s) mod 4 \<noteq> 1
   \<and> (length (base64_sextets s) + (3 - length s mod 3) mod 3) mod 4 = 0"
proof (induction s rule: base64_sextets.induct)
  case (1 a b c rest)
  define L where "L = length (base64_sextets rest)"
  define k where "k = length rest mod 3"
  have "Suc (Suc (Suc (length rest))) mod 3 = length rest mod 3"
    by presburger
  then have l3: "length (a # b # c # rest) mod 3 = k"
    by (simp add: k_def)
  have l4: "length (base64_sextets (a # b # c # rest)) = L + 4"
    by (simp add: L_def)
  from 1 have ih: "L mod 4 \<noteq> 1" "(L + (3 - k) mod 3) mod 4 = 0"
    by (simp_all add: L_def k_def)
  define p where "p = (3 - k) mod 3"
  have "(L + 4 + p) mod 4 = (L + p + 4) mod 4"
    by (simp add: ac_simps)
  also have "\<dots> = (L + p) mod 4"
    by simp
  finally have "(L + 4 + p) mod 4 = 0"
    using ih(2) by (simp add: p_def)
  moreover have "(L + 4) mod 4 \<noteq> 1"
    using ih(1) by simp
  ultimately show ?case unfolding l3 l4 p_def by simp
qed simp_all


lemma those_b64:
  "list_all (\<lambda>v. v < 64) vs \<Longrightarrow> those (map b64_value (map b64_char vs)) = Some vs"
  by (induction vs) (simp_all add: b64_value_char)

lemma strip_padding_pad:
  assumes "xs = [] \<or> last xs \<noteq> 61" "k \<le> 2"
  shows "strip_padding (xs @ replicate k 61) = xs"
proof -
  consider "k = 0" | "k = 1" | "k = 2" using assms(2) by linarith
  then show ?thesis
  proof cases
    case 1
    show ?thesis
    proof (cases "rev xs")
      case Nil
      then show ?thesis using 1 by (simp add: strip_padding_def)
    next
      case (Cons a r)
      then have "xs = rev r @ [a]" by (metis rev_rev_ident rev.simps(2))
      with assms(1) have "a \<noteq> 61" by simp
      with Cons 1 show ?thesis
        by (cases r) (simp_all add: strip_padding_def)
    qed
  next
    case 2
    show ?thesis
    proof (cases "rev xs")
      case Nil
      then show ?thesis using 2 by (simp add: strip_padding_def)
    next
      case (Cons a r)
      then have xs: "xs = rev r @ [a]" by (metis rev_rev_ident rev.simps(2))
      with assms(1) have "a \<noteq> 61" by simp
      with Cons 2 xs show ?thesis
        by (simp add: strip_padding_def)
    qed
  next
    case 3
    then have "replicate k (61::nat) = [61, 61]" by (simp add: numeral_2_eq_2)
    then show ?thesis by (simp add: strip_padding_def)
  qed
qed

lemma atob_btoa:
  assumes "list_all (\<lambda>c. c < 256) s"
  shows "btoa s = Some (map b64_char (base64_sextets s) @ base64_padding s)"
    and "atob (map b64_char (base64_sextets s) @ base64_padding s) = Some s"
proof -
  let ?body = "map b64_char (base64_sextets s)"
  let ?enc = "?body @ base64_padding s"
  show "btoa s = Some ?enc" using assms by (simp add: btoa_def)
  have small: "list_all (\<lambda>v. v < 64) (base64_sextets s)"
    using assms by (rule sextets_small)
  have "\<not> is_ascii_whitespace c" if "c \<in> set ?enc" for c
  proof -
    from that consider v where "v \<in> set (base64_sextets s)" "c = b64_char v" | "c = 61"
      by (auto simp: base64_padding_def)
    then show ?thesis
    proof cases
      case 1
      with small show ?thesis by (simp add: list_all_iff b64_char_not_space)
    next
      case 2
      then show ?thesis by (simp add: is_ascii_whitespace_def)
    qed
  qed
  then have nospace: "filter (\<lambda>c. \<not> is_ascii_whitespace c) ?enc = ?enc"
    by (simp add: filter_id_conv)
  have len: "length ?enc mod 4 = 0" "length ?body mod 4 \<noteq> 1"
    using sextets_length[of s] by (simp_all add: base64_padding_def)
  have last: "?body = [] \<or> last ?body \<noteq> 61"
  proof (cases "base64_sextets s = []")
    case True
    then show ?thesis by simp
  next
    case False
    then have "last (base64_sextets s) \<in> set (base64_sextets s)" by simp
    with small have "last (base64_sextets s) < 64" by (simp add: list_all_iff)
    then show ?thesis using False by (simp add: last_map b64_char_not_pad)
  qed
  have strip: "strip_padding ?enc = ?body"
    unfolding base64_padding_def
    by (rule strip_padding_pad[OF last]) (simp add: less_Suc_eq_le[symmetric])
  show "atob ?enc = Some s"
    unfolding atob_def nospace Let_def
    using len strip those_b64[OF small] octets_sextets[OF assms]
    by simp
qed

subsection \<open>Percent encoding\<close>

lemma utf8_three_parts: "(cp::nat) div 4096 * 4096 + cp div 64 mod 64 * 64 + cp mod 64 = cp"
proof -
  define q where "q = cp div 64"
  define A where "A = q div 64"
  define B where "B = q mod 64"
  have q: "q = A * 64 + B" by (simp add: A_def B_def)
  have "cp div 4096 = A" by (simp add: A_def q_def div_mult2_eq)
  moreover have "cp = q * 64 + cp mod 64" by (simp add: q_def)
  ultimately show ?thesis
    unfolding q_def[symmetric] B_def[symmetric] by (simp add: q)
qed

lemma utf8_four_parts: "(cp::nat) div 262144 * 262144 + cp div 4096 mod 64 * 4096 + cp div 64 mod 64 * 64 + cp mod 64 = cp"
proof -
  define q where "q = cp div 64"
  define p where "p = q div 64"
  define A where "A = p div 64"
  define B where "B = p mod 64"
  define C where "C = q mod 64"
  have p: "p = A * 64 + B" by (simp add: A_def B_def)
  have q: "q = p * 64 + C" by (simp add: p_def C_def)
  have 1: "cp div 4096 = p" by (simp add: p_def q_def div_mult2_eq)
  have 2: "cp div 262144 = A" by (simp add: A_def p_def q_def div_mult2_eq)
  have 3: "cp = q * 64 + cp mod 64" by (simp add: q_def)
  show ?thesis
    unfolding 1 2 q_def[symmetric] B_def[symmetric] C_def[symmetric]
    using 3 by (simp add: q p)
qed

lemma pair_parts:
  assumes "x < 1024" "y < (1024::nat)"
  shows "(65536 + x * 1024 + y - 65536) div 1024 = x" "(65536 + x * 1024 + y - 65536) mod 1024 = y"
  using assms by simp_all

lemma pair_bound: "x < 1024 \<Longrightarrow> y < (1024::nat) \<Longrightarrow> 65536 + x * 1024 + y < 1114112"
  by simp

lemma hex_value_digit: "n < 16 \<Longrightarrow> hex_value (hex_digit n) = Some n"
  by (auto simp: hex_value_def hex_digit_def)

lemma parse_percent:
  assumes "b < 256"
  shows "parse_hex_octet (hex_digit (b div 16)) (hex_digit (b mod 16)) = Some b"
proof -
  have "b div 16 < 16" using assms by simp
  then show ?thesis by (simp add: parse_hex_octet_def hex_value_digit)
qed

lemma decode_percent_start:
  "b < 256 \<Longrightarrow> decode 0 os (percent b @ rest) =
     (if leading_ones b = 0 then map_option ((#) b) (decode 0 [] rest)
      else if leading_ones b = 1 \<or> leading_ones b > 4 then None
      else decode (leading_ones b - 1) [b] rest)"
  by (simp add: percent_def parse_percent)

lemma decode_percent_next:
  "b < 256 \<Longrightarrow> decode (Suc j) os (percent b @ rest) =
     (if j = 0 then
        (case utf8_decode (os @ [b]) of
           None \<Rightarrow> None
         | Some cp \<Rightarrow> map_option ((@) (utf16_encode cp)) (decode 0 [] rest))
      else decode j (os @ [b]) rest)"
  by (simp add: percent_def parse_percent)

lemma decode_percent_last:
  "b < 256 \<Longrightarrow> decode (Suc 0) os (percent b @ rest) =
        (case utf8_decode (os @ [b]) of
           None \<Rightarrow> None
         | Some cp \<Rightarrow> map_option ((@) (utf16_encode cp)) (decode 0 [] rest))"
  by (simp add: decode_percent_next)

lemma decode_percent_2:
  "b < 256 \<Longrightarrow> decode 2 os (percent b @ rest) = decode (Suc 0) (os @ [b]) rest"
  using decode_percent_next[of b "Suc 0" os rest] by (simp add: numeral_2_eq_2)

lemma decode_percent_3:
  "b < 256 \<Longrightarrow> decode 3 os (percent b @ rest) = decode 2 (os @ [b]) rest"
  using decode_percent_next[of b 2 os rest] by (simp add: numeral_3_eq_3 numeral_2_eq_2)

lemma decode_escape_one:
  assumes "cp < 0x80"
  shows "decode 0 [] (escape cp @ rest) = map_option ((@) (utf16_encode cp)) (decode 0 [] rest)"
proof -
  have "escape cp = percent cp" using assms by (simp add: escape_def utf8_encode_def)
  moreover have "leading_ones cp = 0" using assms by (simp add: leading_ones_def)
  moreover have "utf16_encode cp = [cp]" using assms by (simp add: utf16_encode_def)
  moreover have "(@) [cp] = (#) cp" by auto
  ultimately show ?thesis using assms by (simp add: decode_percent_start)
qed

lemma decode_escape_two:
  assumes "0x80 \<le> cp" "cp < 0x800"
  shows "decode 0 [] (escape cp @ rest) = map_option ((@) (utf16_encode cp)) (decode 0 [] rest)"
proof -
  define b0 where "b0 = 0xC0 + cp div 64"
  define b1 where "b1 = 0x80 + cp mod 64"
  have e: "escape cp @ rest = percent b0 @ percent b1 @ rest"
    using assms by (simp add: escape_def utf8_encode_def b0_def b1_def)
  have "cp div 64 < 32" using assms by simp
  then have b0: "b0 < 256" "leading_ones b0 = 2" "b0 - 0xC0 = cp div 64"
    by (simp_all add: b0_def leading_ones_def)
  have b1: "b1 < 256" "is_continuation b1" "b1 - 0x80 = cp mod 64"
    by (simp_all add: b1_def is_continuation_def)
  have "utf8_decode [b0, b1] = Some cp"
    using assms b0 b1 by (simp add: Let_def)
  then show ?thesis
    unfolding e using b0 b1
    by (simp add: decode_percent_start decode_percent_last)
qed

lemma decode_escape_three:
  assumes "0x800 \<le> cp" "cp < 0x10000" "\<not> is_high_surrogate cp" "\<not> is_low_surrogate cp"
  shows "decode 0 [] (escape cp @ rest) = map_option ((@) (utf16_encode cp)) (decode 0 [] rest)"
proof -
  define b0 where "b0 = 0xE0 + cp div 4096"
  define b1 where "b1 = 0x80 + cp div 64 mod 64"
  define b2 where "b2 = 0x80 + cp mod 64"
  have e: "escape cp @ rest = percent b0 @ percent b1 @ percent b2 @ rest"
    using assms by (simp add: escape_def utf8_encode_def b0_def b1_def b2_def)
  have "cp div 4096 < 16" using assms by simp
  then have b0: "b0 < 256" "leading_ones b0 = 3" "b0 - 0xE0 = cp div 4096"
    by (simp_all add: b0_def leading_ones_def)
  have b1: "b1 < 256" "is_continuation b1" "b1 - 0x80 = cp div 64 mod 64"
    by (simp_all add: b1_def is_continuation_def)
  have b2: "b2 < 256" "is_continuation b2" "b2 - 0x80 = cp mod 64"
    by (simp_all add: b2_def is_continuation_def)
  have "utf8_decode [b0, b1, b2] = Some cp"
    using assms b0 b1 b2 utf8_three_parts[of cp] by (simp add: Let_def)
  then show ?thesis
    unfolding e using b0 b1 b2 assms(2)
    by (simp add: decode_percent_start decode_percent_2 decode_percent_last)
qed

lemma decode_escape_four:
  assumes "0x10000 \<le> cp" "cp < 0x110000"
  shows "decode 0 [] (escape cp @ rest) = map_option ((@) (utf16_encode cp)) (decode 0 [] rest)"
proof -
  define b0 where "b0 = 0xF0 + cp div 262144"
  define b1 where "b1 = 0x80 + cp div 4096 mod 64"
  define b2 where "b2 = 0x80 + cp div 64 mod 64"
  define b3 where "b3 = 0x80 + cp mod 64"
  have e: "escape cp @ rest = percent b0 @ percent b1 @ percent b2 @ percent b3 @ rest"
    using assms by (simp add: escape_def utf8_encode_def b0_def b1_def b2_def b3_def)
  have "cp div 262144 < 8" using assms by simp
  then have b0: "b0 < 256" "leading_ones b0 = 4" "b0 - 0xF0 = cp div 262144"
    by (simp_all add: b0_def leading_ones_def)
  have b1: "b1 < 256" "is_continuation b1" "b1 - 0x80 = cp div 4096 mod 64"
    by (simp_all add: b1_def is_continuation_def)
  have b2: "b2 < 256" "is_continuation b2" "b2 - 0x80 = cp div 64 mod 64"
    by (simp_all add: b2_def is_continuation_def)
  have b3: "b3 < 256" "is_continuation b3" "b3 - 0x80 = cp mod 64"
    by (simp_all add: b3_def is_continuation_def)
  have "utf8_decode [b0, b1, b2, b3] = Some cp"
    using assms b0 b1 b2 b3 utf8_four_parts[of cp] by (simp add: Let_def)
  then show ?thesis
    unfolding e using b0 b1 b2 b3
    by (simp add: decode_percent_start decode_percent_3 decode_percent_2 decode_percent_last)
qed

lemma hex_digit_small: "n < 16 \<Longrightarrow> hex_digit n < 256"
  by (simp add: hex_digit_def)

lemma percent_small: "b < 256 \<Longrightarrow> list_all (\<lambda>c. c < 256) (percent b)"
proof -
  assume "b < 256"
  then have "b div 16 < 16" by simp
  then show ?thesis by (simp add: percent_def hex_digit_small)
qed

lemma escape_small:
  assumes "cp < 0x110000"
  shows "list_all (\<lambda>c. c < 256) (escape cp)"
proof -
  have "cp div 64 < 32" if "cp < 0x800" using that by simp
  moreover have "cp div 4096 < 16" if "cp < 0x10000" using that by simp
  moreover have "cp div 262144 < 8" using assms by simp
  ultimately show ?thesis
    by (simp add: escape_def utf8_encode_def percent_small)
qed

lemma unreserved_plain:
  "is_unreserved c \<Longrightarrow> c \<noteq> 37 \<and> c < 256 \<and> \<not> is_high_surrogate c \<and> \<not> is_low_surrogate c"
  by (auto simp: is_unreserved_def is_high_surrogate_def is_low_surrogate_def)

lemma utf16_pair:
  assumes "is_high_surrogate c" "is_low_surrogate d"
  shows "utf16_encode (pair_code_point c d) = [c, d]"
    and "0x10000 \<le> pair_code_point c d" and "pair_code_point c d < 0x110000"
proof -
  define x where "x = c - 0xD800"
  define y where "y = d - 0xDC00"
  have x: "x < 1024" "c = 0xD800 + x"
    using assms(1) by (auto simp: x_def is_high_surrogate_def)
  have y: "y < 1024" "d = 0xDC00 + y"
    using assms(2) by (auto simp: y_def is_low_surrogate_def)
  have p: "pair_code_point c d = 65536 + x * 1024 + y"
    by (simp add: pair_code_point_def x_def y_def)
  show "utf16_encode (pair_code_point c d) = [c, d]"
    unfolding p utf16_encode_def using pair_parts[OF x(1) y(1)] x(2) y(2) by simp
  show "0x10000 \<le> pair_code_point c d" unfolding p by simp
  show "pair_code_point c d < 0x110000" unfolding p using pair_bound[OF x(1) y(1)] by simp
qed

lemma decode_escape_unit:
  assumes "c < 65536" "\<not> is_high_surrogate c" "\<not> is_low_surrogate c"
  shows "decode 0 [] (escape c @ rest) = map_option ((#) c) (decode 0 [] rest)"
proof -
  have u: "utf16_encode c = [c]" using assms(1) by (simp add: utf16_encode_def)
  have f: "(@) [c] = (#) c" by auto
  consider "c < 0x80" | "0x80 \<le> c" "c < 0x800" | "0x800 \<le> c" by linarith
  then have "decode 0 [] (escape c @ rest) = map_option ((@) (utf16_encode c)) (decode 0 [] rest)"
  proof cases
    case 1
    then show ?thesis by (rule decode_escape_one)
  next
    case 2
    then show ?thesis by (rule decode_escape_two)
  next
    case 3
    then show ?thesis using assms by (intro decode_escape_three) simp_all
  qed
  then show ?thesis by (simp add: u f)
qed

lemma decode_encode:
  "well_formed s \<Longrightarrow>
   \<exists>e. encodeURIComponent s = Some e \<and> decode 0 [] e = Some s \<and> list_all (\<lambda>c. c < 256) e"
proof (induction s rule: encodeURIComponent.induct)
  case 1
  then show ?case by simp
next
  case (2 c cs)
  show ?case
  proof (cases "is_unreserved c")
    case True
    note plain = unreserved_plain[OF True]
    with "2.prems" have "well_formed cs" by simp
    with "2.IH"(1)[OF True] obtain e where
      e: "encodeURIComponent cs = Some e" "decode 0 [] e = Some cs" "list_all (\<lambda>c. c < 256) e"
      by blast
    with True plain show ?thesis by simp
  next
    case False
    from "2.prems" have low: "\<not> is_low_surrogate c" and c: "c < 65536"
      by (auto split: if_splits)
    show ?thesis
    proof (cases "is_high_surrogate c")
      case True
      with "2.prems" low obtain d ds where
        cs: "cs = d # ds" and d: "is_low_surrogate d" and wf: "well_formed ds"
        by (cases cs) auto
      from "2.IH"(2)[OF False low True cs d wf] obtain e where
        e: "encodeURIComponent ds = Some e" "decode 0 [] e = Some ds" "list_all (\<lambda>c. c < 256) e"
        by blast
      note p = utf16_pair[OF True d]
      have "decode 0 [] (escape (pair_code_point c d) @ e) = Some (c # d # ds)"
        using decode_escape_four[OF p(2,3), of e] e(2) p(1) by simp
      moreover have "list_all (\<lambda>c. c < 256) (escape (pair_code_point c d) @ e)"
        using escape_small[OF p(3)] e(3) by simp
      ultimately show ?thesis
        using False low True cs d e(1) by simp
    next
      case high: False
      with "2.prems" low have "well_formed cs" by simp
      with "2.IH"(3)[OF False low high] obtain e where
        e: "encodeURIComponent cs = Some e" "decode 0 [] e = Some cs" "list_all (\<lambda>c. c < 256) e"
        by blast
      have "decode 0 [] (escape c @ e) = Some (c # cs)"
        using decode_escape_unit[OF c high low, of e] e(2) by simp
      moreover have "list_all (\<lambda>c. c < 256) (escape c @ e)"
        using escape_small[of c] c e(3) by simp
      ultimately show ?thesis
        using False low high e(1) by simp
    qed
  qed
qed

lemma encode_ill_formed:
  "\<lbrakk>\<forall>c\<in>set s. c < 65536; \<not> well_formed s; t = [] \<or> \<not> is_low_surrogate (hd t)\<rbrakk>
   \<Longrightarrow> encodeURIComponent (s @ t) = None"
proof (induction s rule: encodeURIComponent.induct)
  case 1
  then show ?case by simp
next
  case (2 c cs)
  show ?case
  proof (cases "is_unreserved c")
    case True
    note plain = unreserved_plain[OF True]
    with "2.prems" have "\<not> well_formed cs" by simp
    with "2.IH"(1)[OF True] "2.prems" have "encodeURIComponent (cs @ t) = None" by simp
    with True show ?thesis by simp
  next
    case False
    show ?thesis
    proof (cases "is_low_surrogate c")
      case True
      with False show ?thesis by simp
    next
      case low: False
      show ?thesis
      proof (cases "is_high_surrogate c")
        case True
        show ?thesis
        proof (cases cs)
          case Nil
          with False low True "2.prems"(3) show ?thesis by (cases t) simp_all
        next
          case (Cons d ds)
          show ?thesis
          proof (cases "is_low_surrogate d")
            case d: True
            with "2.prems" low True Cons have "\<not> well_formed ds" by simp
            with "2.IH"(2)[OF False low True Cons d] "2.prems" Cons
            have "encodeURIComponent (ds @ t) = None" by simp
            with False low True Cons d show ?thesis by simp
          next
            case d: False
            with False low True Cons show ?thesis by simp
          qed
        qed
      next
        case high: False
        with "2.prems" low have "\<not> well_formed cs" by simp
        with "2.IH"(3)[OF False low high] "2.prems" have "encodeURIComponent (cs @ t) = None" by simp
        with False low high show ?thesis by simp
      qed
    qed
  qed
qed

lemma well_formed_append:
  "well_formed s \<Longrightarrow> well_formed t \<Longrightarrow> well_formed (s @ t)"
proof (induction s rule: well_formed.induct)
  case 1
  then show ?case by simp
next
  case (2 c cs)
  show ?case
  proof (cases "is_high_surrogate c")
    case True
    with "2.prems" obtain d ds where cs: "cs = d # ds" "is_low_surrogate d" "well_formed ds"
      and low: "\<not> is_low_surrogate c" and c: "c < 65536"
      by (cases cs) (auto split: if_splits)
    with "2.IH"(1)[OF low True cs(1)] "2.prems"(2) have "well_formed (ds @ t)" by simp
    with True low c cs show ?thesis by simp
  next
    case False
    with "2.prems" have low: "\<not> is_low_surrogate c" and c: "c < 65536" and "well_formed cs"
      by (auto split: if_splits)
    with "2.IH"(2)[OF low False] "2.prems"(2) have "well_formed (cs @ t)" by simp
    with False low c show ?thesis by simp
  qed
qed

lemma well_formed_plain:
  "\<forall>c\<in>set s. c < 0xD800 \<Longrightarrow> well_formed s"
  by (induction s) (auto simp: is_high_surrogate_def is_low_surrogate_def)

subsection \<open>\<open>encrypt\<close> and \<open>decrypt\<close>\<close>

declare decimal.simps [simp del]

lemma decimal_digits: "c \<in> set (decimal n) \<Longrightarrow> 48 \<le> c \<and> c \<le> 57"
proof (induction n arbitrary: c rule: decimal.induct)
  case (1 n)
  show ?case
  proof (cases "n < 10")
    case True
    with "1.prems" show ?thesis by (simp add: decimal.simps[of n])
  next
    case False
    have "n mod 10 < 10" by simp
    with False "1.prems" "1.IH" show ?thesis
      by (auto simp: decimal.simps[of n])
  qed
qed

lemma number_toString_plain: "c \<in> set (number_toString i) \<Longrightarrow> c < 0xD800 \<and> c \<noteq> 124"
  using decimal_digits[of c "nat (- i)"] decimal_digits[of c "nat i"]
  by (auto simp: number_toString_def split: if_splits)

lemma stamped_well_formed:
  assumes "well_formed text"
  shows "well_formed (text @ [124] @ number_toString now)"
proof -
  have "\<forall>c\<in>set ([124] @ number_toString now). c < 0xD800"
    using number_toString_plain by auto
  then have "well_formed ([124] @ number_toString now)" by (rule well_formed_plain)
  with assms show ?thesis by (rule well_formed_append)
qed

lemma split_first:
  "takeWhile (\<lambda>c. c \<noteq> 124) (text @ [124] @ rest) = takeWhile (\<lambda>c. c \<noteq> (124::nat)) text"
proof (cases "124 \<in> set text")
  case True
  then show ?thesis using takeWhile_append1[of 124 "text" "\<lambda>c. c \<noteq> 124"] by simp
next
  case False
  then have all: "\<And>x. x \<in> set text \<Longrightarrow> x \<noteq> 124" by auto
  then have a: "takeWhile (\<lambda>c. c \<noteq> 124) (text @ [124] @ rest) = text"
    using takeWhile_append2[of "text" "\<lambda>c. c \<noteq> 124" "[124] @ rest"] by simp
  have b: "takeWhile (\<lambda>c. c \<noteq> 124) text = text"
    using all by (simp add: takeWhile_eq_all_conv)
  show ?thesis by (simp only: a b)
qed

lemma decrypt_encrypt:
  assumes "well_formed text"
  shows "decrypt (encrypt text now) = Some (takeWhile (\<lambda>c. c \<noteq> 124) text)"
proof -
  let ?plain = "text @ [124] @ number_toString now"
  from decode_encode[OF stamped_well_formed[OF assms, of now]] obtain uri where
    uri: "encodeURIComponent ?plain = Some uri" "decode 0 [] uri = Some ?plain"
      "list_all (\<lambda>c. c < 256) uri"
    by blast
  note b = atob_btoa[OF uri(3)]
  have "encrypt text now = map b64_char (base64_sextets uri) @ base64_padding uri"
    using uri(1) b(1) by (simp add: encrypt_def)
  then show ?thesis
    using b(2) uri(2) split_first[of "text" "number_toString now"]
    by (simp add: decrypt_def decodeURIComponent_def)
qed

lemma ill_formed_surrogate:
  "\<not> well_formed s \<Longrightarrow> \<forall>c\<in>set s. c < 65536 \<Longrightarrow> \<exists>c\<in>set s. 0xD800 \<le> c"
  using well_formed_plain[of s] by (meson not_le_imp_less)

lemma those_None: "x \<in> set xs \<Longrightarrow> f x = None \<Longrightarrow> those (map f xs) = None"
  by (induction xs) (auto split: option.splits)

lemma strip_padding_keeps: "c \<in> set s \<Longrightarrow> c \<noteq> 61 \<Longrightarrow> c \<in> set (strip_padding s)"
proof -
  assume c: "c \<in> set s" "c \<noteq> 61"
  then have r: "c \<in> set (rev s)" by simp
  show ?thesis
  proof (cases "rev s")
    case Nil
    with r show ?thesis by simp
  next
    case (Cons a r1)
    show ?thesis
    proof (cases r1)
      case Nil
      with Cons r c show ?thesis by (auto simp: strip_padding_def)
    next
      case (Cons b r2)
      with \<open>rev s = a # r1\<close> r c show ?thesis by (auto simp: strip_padding_def)
    qed
  qed
qed

lemma atob_surrogate:
  assumes "c \<in> set s" "0xD800 \<le> c"
  shows "atob s = None"
proof -
  let ?u = "filter (\<lambda>c. \<not> is_ascii_whitespace c) s"
  let ?body = "if length ?u mod 4 = 0 then strip_padding ?u else ?u"
  have "c \<in> set ?u" using assms by (simp add: is_ascii_whitespace_def)
  then have "c \<in> set ?body" using assms(2) by (simp add: strip_padding_keeps)
  moreover have "b64_value c = None" using assms(2) by (simp add: b64_value_def)
  ultimately have "those (map b64_value ?body) = None" by (rule those_None)
  then show ?thesis by (simp add: atob_def Let_def)
qed

lemma encrypt_ill_formed:
  assumes "\<forall>c\<in>set text. c < 65536" "\<not> well_formed text"
  shows "encrypt text now = text" and "decrypt (encrypt text now) = None"
proof -
  have "encodeURIComponent (text @ [124] @ number_toString now) = None"
    using assms by (intro encode_ill_formed) (simp_all add: is_low_surrogate_def)
  then show e: "encrypt text now = text" by (simp add: encrypt_def)
  from ill_formed_surrogate[OF assms(2,1)] obtain c where "c \<in> set text" "0xD800 \<le> c"
    by blast
  then have "atob text = None" by (rule atob_surrogate)
  then show "decrypt (encrypt text now) = None" by (simp add: e decrypt_def)
qed

text \<open>
  Claim C10, as stated, for every string without \<^verbatim>\<open>|\<close>: the string made of the single
  code unit \<open>0xD800\<close>, a surrogate without its pair, holds no \<^verbatim>\<open>|\<close>, and decrypting its
  encryption gives \<^verbatim>\<open>null\<close>. \<^verbatim>\<open>encodeURIComponent\<close> raises on it, \<open>encrypt\<close> catches that
  and returns the string itself, which \<^verbatim>\<open>atob\<close> rejects.
\<close>

theorem encrypt_unpaired_surrogate_counterexample:
  "124 \<notin> set [0xD800 :: nat] \<and> decrypt (encrypt [0xD800] 0) = None
   \<and> decrypt (encrypt [0xD800] 0) \<noteq> Some [0xD800]"
  by (simp add: encrypt_def decrypt_def atob_def is_unreserved_def is_low_surrogate_def
      is_high_surrogate_def is_ascii_whitespace_def Let_def)

text \<open>
  Claim C10, amended. For every well-formed string \<open>s\<close> (every surrogate in it paired),
  decrypting the encryption of \<open>s\<close> gives the part of \<open>s\<close> before its first \<^verbatim>\<open>|\<close>: \<open>s\<close>
  itself when it holds no \<^verbatim>\<open>|\<close>, a proper prefix otherwise. A string with an unpaired
  surrogate is returned by \<open>encrypt\<close> as it is and decrypts to \<^verbatim>\<open>null\<close>.
\<close>

theorem decrypt_encrypt_round_trip:
  "(well_formed s \<and> 124 \<notin> set s \<longrightarrow> decrypt (encrypt s now) = Some s)
   \<and> (well_formed s \<longrightarrow> decrypt (encrypt s now) = Some (takeWhile (\<lambda>c. c \<noteq> 124) s))
   \<and> ((\<forall>c\<in>set s. c < 65536) \<and> \<not> well_formed s \<longrightarrow>
        encrypt s now = s \<and> decrypt (encrypt s now) = None)"
proof -
  have "takeWhile (\<lambda>c. c \<noteq> 124) s = s" if "124 \<notin> set s"
    using that by (auto simp: takeWhile_eq_all_conv)
  then show ?thesis
    using decrypt_encrypt[of s now] encrypt_ill_formed[of s now] by auto
qed

theorem decrypt_encrypt_round_trip_witness:
  "decrypt (encrypt (js ''eyJhbGciOi.J9'') 1700000000000) = Some (js ''eyJhbGciOi.J9'')
   \<and> decrypt (encrypt (js ''left|right'') 1700000000000) = Some (js ''left'')
   \<and> encrypt [0xDC00, 0x41] 1700000000000 = [0xDC00, 0x41]
   \<and> decrypt (encrypt [0xDC00, 0x41] 1700000000000) = None"
proof -
  have a: "well_formed (js ''eyJhbGciOi.J9'') \<and> 124 \<notin> set (js ''eyJhbGciOi.J9'')"
    by (simp add: js_def is_low_surrogate_def is_high_surrogate_def)
  have b: "well_formed (js ''left|right'')"
    by (simp add: js_def is_low_surrogate_def is_high_surrogate_def)
  have c: "(\<forall>c\<in>set [0xDC00, 0x41 :: nat]. c < 65536) \<and> \<not> well_formed [0xDC00, 0x41]"
    by (simp add: is_low_surrogate_def)
  have t: "takeWhile (\<lambda>c. c \<noteq> 124) (js ''left|right'') = js ''left''"
    by (simp add: js_def)
  from a decrypt_encrypt_round_trip[of "js ''eyJhbGciOi.J9''" 1700000000000]
  have 1: "decrypt (encrypt (js ''eyJhbGciOi.J9'') 1700000000000) = Some (js ''eyJhbGciOi.J9'')"
    by blast
  from b decrypt_encrypt_round_trip[of "js ''left|right''" 1700000000000]
  have 2: "decrypt (encrypt (js ''left|right'') 1700000000000) = Some (js ''left'')"
    unfolding t by blast
  from c decrypt_encrypt_round_trip[of "[0xDC00, 0x41]" 1700000000000]
  have 3: "encrypt [0xDC00, 0x41] 1700000000000 = [0xDC00, 0x41]
     \<and> decrypt (encrypt [0xDC00, 0x41] 1700000000000) = None"
    by blast
  show ?thesis using 1 2 3 by blast
qed

section \<open>Properties of the expiry bookkeeping\<close>

lemma digit_value_decimal: "d < 10 \<Longrightarrow> digit_value 10 (48 + d) = Some d"
  by (simp add: digit_value_def hex_value_def)

lemma read_digits_decimal:
  "read_digits 10 (decimal m @ rest) acc
     = read_digits 10 rest
         (Some ((case acc of None \<Rightarrow> 0 | Some a \<Rightarrow> a) * 10 ^ length (decimal m) + m))"
proof (induction m arbitrary: rest acc rule: decimal.induct)
  case (1 m)
  show ?case
  proof (cases "m < 10")
    case True
    then show ?thesis
      by (simp add: decimal.simps[of m] digit_value_decimal mult.commute)
  next
    case False
    have d: "m mod 10 < 10" by simp
    have dec: "decimal m = decimal (m div 10) @ [48 + m mod 10]"
      using False by (simp add: decimal.simps[of m])
    have "read_digits 10 (decimal m @ rest) acc
        = read_digits 10 (decimal (m div 10) @ ((48 + m mod 10) # rest)) acc"
      by (simp add: dec)
    also have "\<dots> = read_digits 10 ((48 + m mod 10) # rest)
         (Some ((case acc of None \<Rightarrow> 0 | Some a \<Rightarrow> a) * 10 ^ length (decimal (m div 10)) + m div 10))"
      using "1.IH"[OF False] by simp
    also have "\<dots> = read_digits 10 rest
         (Some (10 * ((case acc of None \<Rightarrow> 0 | Some a \<Rightarrow> a) * 10 ^ length (decimal (m div 10)) + m div 10)
                + m mod 10))"
      by (simp add: digit_value_decimal[OF d])
    also have "10 * ((case acc of None \<Rightarrow> 0 | Some a \<Rightarrow> a) * 10 ^ length (decimal (m div 10)) + m div 10)
                + m mod 10
        = (case acc of None \<Rightarrow> 0 | Some a \<Rightarrow> a) * 10 ^ length (decimal m) + m"
      by (simp add: dec algebra_simps)
    finally show ?thesis .
  qed
qed

lemma decimal_nonempty: "decimal m \<noteq> []"
  by (cases "m < 10") (simp_all add: decimal.simps[of m])

lemma decimal_hd: "48 \<le> hd (decimal m) \<and> hd (decimal m) \<le> 57"
  using decimal_digits[of "hd (decimal m)" m] decimal_nonempty[of m] by simp

lemma decimal_not_hex:
  "(case decimal m of a # b # r \<Rightarrow> a = 48 \<and> (b = 120 \<or> b = 88) | _ \<Rightarrow> False) = False"
proof (cases "decimal m")
  case Nil
  then show ?thesis by simp
next
  case (Cons a r)
  show ?thesis
  proof (cases r)
    case Nil
    with Cons show ?thesis by simp
  next
    case (Cons b r')
    with \<open>decimal m = a # r\<close> have "b \<in> set (decimal m)" by simp
    then have "48 \<le> b \<and> b \<le> 57" by (rule decimal_digits)
    with Cons \<open>decimal m = a # r\<close> show ?thesis by auto
  qed
qed

lemma parseInt_decimal: "parseInt (decimal m) = Some (int m)"
proof -
  have h: "\<not> is_white_space (hd (decimal m))" "hd (decimal m) \<noteq> 45" "hd (decimal m) \<noteq> 43"
    using decimal_hd[of m] by (auto simp: is_white_space_def)
  have "dropWhile is_white_space (decimal m) = decimal m"
    using h(1) decimal_nonempty[of m] by (cases "decimal m") simp_all
  moreover have "read_digits 10 (decimal m) None = Some m"
    using read_digits_decimal[of m "[]" None] by simp
  ultimately show ?thesis
    using h decimal_nonempty[of m] decimal_not_hex[of m]
    by (simp add: parseInt_def Let_def)
qed

lemma parseInt_number_toString: "parseInt (number_toString i) = Some i"
proof (cases "i < 0")
  case False
  then show ?thesis by (simp add: number_toString_def parseInt_decimal)
next
  case True
  have "read_digits 10 (decimal (nat (- i))) None = Some (nat (- i))"
    using read_digits_decimal[of "nat (- i)" "[]" None] by simp
  then show ?thesis
    using True decimal_not_hex[of "nat (- i)"]
    by (simp add: number_toString_def parseInt_def Let_def is_white_space_def)
qed

lemma setSecureItem_env [simp]:
  "has_window (setSecureItem key v now s) = has_window s"
  "storage_available (setSecureItem key v now s) = storage_available s"
  "encryptTokens (setSecureItem key v now s) = encryptTokens s"
  by (simp_all add: setSecureItem_def)

lemma decrypt_empty: "decrypt [] = Some []"
  by (simp add: decrypt_def atob_def decodeURIComponent_def strip_padding_def)

lemma encrypt_nonempty:
  assumes "well_formed v" "v \<noteq> []" "124 \<notin> set v"
  shows "encrypt v now \<noteq> []"
proof
  assume "encrypt v now = []"
  then have "decrypt (encrypt v now) = Some []" by (simp add: decrypt_empty)
  moreover have "takeWhile (\<lambda>c. c \<noteq> 124) v = v"
    using assms(3) by (auto simp: takeWhile_eq_all_conv)
  ultimately show False using decrypt_encrypt[OF assms(1), of now] assms(2) by simp
qed

lemma getSecureItem_setSecureItem:
  assumes "has_window s" "storage_available s" "well_formed v" "v \<noteq> []" "124 \<notin> set v"
  shows "getSecureItem key (setSecureItem key v now s) = Some v"
proof (cases "encryptTokens s")
  case False
  with assms show ?thesis
    by (simp add: getSecureItem_def setSecureItem_def truthy_def)
next
  case True
  have "takeWhile (\<lambda>c. c \<noteq> 124) v = v"
    using assms(5) by (auto simp: takeWhile_eq_all_conv)
  with True assms encrypt_nonempty[OF assms(3,4,5), of now] decrypt_encrypt[OF assms(3), of now]
  show ?thesis
    by (simp add: getSecureItem_def setSecureItem_def truthy_def)
qed

lemma number_toString_nonempty: "number_toString i \<noteq> []"
  by (simp add: number_toString_def decimal_nonempty)

lemma number_toString_well_formed: "well_formed (number_toString i)"
  using number_toString_plain[of _ i] by (intro well_formed_plain) blast

lemma number_toString_no_separator: "124 \<notin> set (number_toString i)"
  using number_toString_plain[of 124 i] by blast

lemma expiry_after_setTokens:
  assumes "has_window s" "storage_available s"
  shows "getSecureItem (js ''tokenExpiry'') (setTokens access refresh t0 s)
           = Some (number_toString (t0 + 3300000))"
proof -
  define s4 where "s4 =
    (let s1 = s\<lparr>accessToken := Some access\<rparr>;
         s2 = (if truthy refresh then s1\<lparr>refreshToken := refresh\<rparr> else s1);
         s3 = setSecureItem (js ''accessToken'') access t0 s2
     in if truthy refresh then setSecureItem (js ''refreshToken'') (the refresh) t0 s3 else s3)"
  have env: "has_window s4" "storage_available s4"
    using assms by (simp_all add: s4_def Let_def)
  have "setTokens access refresh t0 s
          = setSecureItem (js ''tokenExpiry'') (number_toString (t0 + 3300000)) t0 s4"
    by (simp add: setTokens_def s4_def Let_def)
  then show ?thesis
    using getSecureItem_setSecureItem[OF env number_toString_well_formed
        number_toString_nonempty number_toString_no_separator]
    by simp
qed

lemma no_expiry_after_clearTokens:
  "getSecureItem (js ''tokenExpiry'') (clearTokens s) = None"
  by (simp add: getSecureItem_def clearTokens_def removeSecureItem_def truthy_def)

text \<open>
  Claim C8. With a \<^verbatim>\<open>window\<close> and a storage that works, \<open>setTokens\<close> at time \<open>t0\<close> records
  the expiry \<open>t0\<close> plus fifty-five minutes, in clear or encrypted. From then on
  \<open>isTokenExpired\<close> at time \<open>now\<close> is true exactly when \<open>now\<close> has reached the expiry, and
  \<open>isTokenExpiringSoon\<close> exactly when \<open>now\<close> plus five minutes has reached it. When no
  expiry is recorded, as after \<open>clearTokens\<close>, both are true.
\<close>

theorem expiry_checks:
  "(has_window s \<and> storage_available s \<longrightarrow>
      isTokenExpired now (setTokens access refresh t0 s) = (now \<ge> t0 + 55 * 60 * 1000)
      \<and> isTokenExpiringSoon now (setTokens access refresh t0 s)
          = (now + 5 * 60 * 1000 \<ge> t0 + 55 * 60 * 1000))
   \<and> (\<not> truthy (getSecureItem (js ''tokenExpiry'') s) \<longrightarrow>
        isTokenExpired now s \<and> isTokenExpiringSoon now s)
   \<and> isTokenExpired now (clearTokens s)"
proof -
  have a: "isTokenExpired now (setTokens access refresh t0 s) = (now \<ge> t0 + 55 * 60 * 1000)
      \<and> isTokenExpiringSoon now (setTokens access refresh t0 s)
          = (now + 5 * 60 * 1000 \<ge> t0 + 55 * 60 * 1000)"
    if "has_window s \<and> storage_available s"
    using that expiry_after_setTokens[of s access refresh t0]
    by (simp add: isTokenExpired_def isTokenExpiringSoon_def Let_def truthy_def
        number_toString_nonempty parseInt_number_toString)
  have b: "isTokenExpired now s \<and> isTokenExpiringSoon now s"
    if "\<not> truthy (getSecureItem (js ''tokenExpiry'') s)"
    using that by (simp add: isTokenExpired_def isTokenExpiringSoon_def Let_def)
  have c: "isTokenExpired now (clearTokens s)"
    by (simp add: isTokenExpired_def Let_def no_expiry_after_clearTokens truthy_def)
  show ?thesis using a b c by blast
qed

theorem expiry_checks_witness:
  "\<not> isTokenExpired 1003299999
       (setTokens (js ''access'') (Some (js ''refresh'')) 1000000000
          (new_token_manager True True True (\<lambda>key. None)))
   \<and> isTokenExpired 1003300000
       (setTokens (js ''access'') (Some (js ''refresh'')) 1000000000
          (new_token_manager True True True (\<lambda>key. None)))
   \<and> \<not> isTokenExpiringSoon 1002999999
       (setTokens (js ''access'') (Some (js ''refresh'')) 1000000000
          (new_token_manager True True True (\<lambda>key. None)))
   \<and> isTokenExpiringSoon 1003000000
       (setTokens (js ''access'') (Some (js ''refresh'')) 1000000000
          (new_token_manager True True True (\<lambda>key. None)))
   \<and> isTokenExpired 0 (new_token_manager True True True (\<lambda>key. None))"
proof -
  let ?s = "new_token_manager True True True (\<lambda>key. None)"
  have env: "has_window ?s \<and> storage_available ?s"
    by (simp add: new_token_manager_def)
  have none: "\<not> truthy (getSecureItem (js ''tokenExpiry'') ?s)"
    by (simp add: new_token_manager_def getSecureItem_def truthy_def)
  note T = expiry_checks[of ?s _ "js ''access''" "Some (js ''refresh'')" 1000000000]
  from env T[of 1003299999] have 1: "\<not> isTokenExpired 1003299999
       (setTokens (js ''access'') (Some (js ''refresh'')) 1000000000 ?s)" by simp
  from env T[of 1003300000] have 2: "isTokenExpired 1003300000
       (setTokens (js ''access'') (Some (js ''refresh'')) 1000000000 ?s)" by simp
  from env T[of 1002999999] have 3: "\<not> isTokenExpiringSoon 1002999999
       (setTokens (js ''access'') (Some (js ''refresh'')) 1000000000 ?s)" by simp
  from env T[of 1003000000] have 4: "isTokenExpiringSoon 1003000000
       (setTokens (js ''access'') (Some (js ''refresh'')) 1000000000 ?s)" by simp
  from none T[of 0] have 5: "isTokenExpired 0 ?s" by blast
  show ?thesis using 1 2 3 4 5 by blast
qed

section \<open>Properties of the renewal protocol\<close>

subsection \<open>The invariant\<close>

lemma protocol_setSecureItem [simp]: "protocol (setSecureItem key v now s) = protocol s"
  by (simp add: protocol_def setSecureItem_def)

lemma protocol_removeSecureItem [simp]: "protocol (removeSecureItem key s) = protocol s"
  by (simp add: protocol_def removeSecureItem_def)

lemma protocol_tokens [simp]:
  "protocol (s\<lparr>accessToken := a\<rparr>) = protocol s"
  "protocol (s\<lparr>refreshToken := r\<rparr>) = protocol s"
  by (simp_all add: protocol_def)

lemma protocol_setTokens [simp]: "protocol (setTokens access refresh now s) = protocol s"
  by (simp add: setTokens_def Let_def)

lemma protocol_clearTokens [simp]: "protocol (clearTokens s) = protocol s"
  by (simp add: clearTokens_def)

lemma protocol_getAccessToken [simp]: "protocol (snd (getAccessToken s)) = protocol s"
  by (simp add: getAccessToken_def Let_def)

lemma protocol_getRefreshToken [simp]: "protocol (snd (getRefreshToken s)) = protocol s"
  by (simp add: getRefreshToken_def Let_def)

lemma protocol_join:
  assumes "isRefreshing s" "refreshPromise s = Some p"
  shows "protocol (refreshAccessToken s)
           = (True, Some p, tickets s, refresh_requests s,
              calls s @ [\<lparr>awaited = Some p, leads = False, result = None\<rparr>])"
  using assms by (simp add: refreshAccessToken_def protocol_def)

lemma protocol_throw:
  assumes "\<not> (isRefreshing s \<and> refreshPromise s \<noteq> None)" "\<not> truthy (fst (getRefreshToken s))"
  shows "protocol (refreshAccessToken s)
           = (isRefreshing s, refreshPromise s, tickets s, refresh_requests s,
              calls s @ [\<lparr>awaited = None, leads = False, result = Some (Inl no_refresh_token)\<rparr>])"
proof -
  have "protocol (snd (getRefreshToken s)) = protocol s" by simp
  then show ?thesis
    using assms by (auto simp: refreshAccessToken_def protocol_def split_beta)
qed

lemma protocol_start:
  assumes "\<not> (isRefreshing s \<and> refreshPromise s \<noteq> None)" "truthy (fst (getRefreshToken s))"
  shows "protocol (refreshAccessToken s)
           = (True, Some (length (tickets s)), tickets s @ [AwaitingResponse],
              refresh_requests s @ [the (fst (getRefreshToken s))],
              calls s @ [\<lparr>awaited = Some (length (tickets s)), leads = True, result = None\<rparr>])"
proof -
  have "protocol (snd (getRefreshToken s)) = protocol s" by simp
  then show ?thesis
    using assms by (auto simp: refreshAccessToken_def protocol_def split_beta)
qed

lemma resume_noop:
  assumes "\<not> (\<exists>p settled. resumable i p settled s)"
  shows "resume i s = s"
  using assms by (auto simp: resume_def resumable_def split: option.splits)

lemma protocol_resume_follower:
  assumes "resumable i p settled s" "\<not> leads (calls s ! i)"
  shows "protocol (resume i s)
           = (isRefreshing s, refreshPromise s, tickets s, refresh_requests s,
              (calls s)[i := (calls s ! i)\<lparr>result := Some settled\<rparr>])"
  using assms by (simp add: resume_def resumable_def protocol_def)

lemma protocol_resume_leader:
  assumes "resumable i p settled s" "leads (calls s ! i)"
  shows "protocol (resume i s)
           = (False, None, tickets s, refresh_requests s,
              (calls s)[i := (calls s ! i)\<lparr>result := Some settled\<rparr>])"
proof (cases settled)
  case (Inl e)
  let ?s0 = "s\<lparr>isRefreshing := False, refreshPromise := None\<rparr>"
  have "protocol (clearTokens ?s0) = protocol ?s0" by simp
  then have "calls (clearTokens ?s0) = calls s" "tickets (clearTokens ?s0) = tickets s"
    "refresh_requests (clearTokens ?s0) = refresh_requests s"
    "isRefreshing (clearTokens ?s0) = False" "refreshPromise (clearTokens ?s0) = None"
    by (simp_all add: protocol_def)
  with assms Inl show ?thesis
    by (simp add: resume_def resumable_def protocol_def Let_def)
next
  case (Inr t)
  with assms show ?thesis
    by (simp add: resume_def resumable_def protocol_def Let_def)
qed

lemma call_ok_append: "call_ok ts c \<Longrightarrow> call_ok (ts @ [t]) c"
  by (auto simp: call_ok_def nth_append split: option.splits)

lemma call_ok_update:
  assumes "call_ok ts c" "p < length ts" "ticket_outcome (ts ! p) = None"
  shows "call_ok (ts[p := t]) c"
proof (cases "awaited c")
  case None
  with assms(1) show ?thesis by (simp add: call_ok_def)
next
  case (Some q)
  with assms(1) have q: "q < length ts" "result c = None \<or> result c = ticket_outcome (ts ! q)"
    by (simp_all add: call_ok_def)
  show ?thesis
  proof (cases "q = p")
    case True
    with q(2) assms(3) have "result c = None" by auto
    with q(1) Some show ?thesis by (simp add: call_ok_def)
  next
    case False
    with q Some show ?thesis by (simp add: call_ok_def)
  qed
qed

lemma protocol_invI:
  assumes "r \<longleftrightarrow> slot \<noteq> None"
    and "\<And>p. p < length ts \<Longrightarrow> ticket_outcome (ts ! p) = None \<Longrightarrow> slot = Some p"
    and "length requests = length ts"
    and "\<And>p e. p < length ts \<Longrightarrow> ts ! p = RejectedWith e \<Longrightarrow> e = refresh_failed"
    and "list_all (call_ok ts) cs"
    and "\<And>i. i < length cs \<Longrightarrow> leads (cs ! i) \<Longrightarrow> result (cs ! i) = None
           \<Longrightarrow> slot = awaited (cs ! i)"
    and "\<And>i j. i < length cs \<Longrightarrow> j < length cs \<Longrightarrow> leads (cs ! i) \<Longrightarrow> leads (cs ! j)
           \<Longrightarrow> awaited (cs ! i) = awaited (cs ! j) \<Longrightarrow> i = j"
    and "\<And>p. slot = Some p \<Longrightarrow>
           \<exists>i < length cs. leads (cs ! i) \<and> awaited (cs ! i) = Some p \<and> result (cs ! i) = None"
  shows "protocol_inv (r, slot, ts, requests, cs)"
  unfolding protocol_inv.simps using assms by blast

lemma protocol_invD:
  assumes "protocol_inv (r, slot, ts, requests, cs)"
  shows "r \<longleftrightarrow> slot \<noteq> None"
    and "\<And>p. p < length ts \<Longrightarrow> ticket_outcome (ts ! p) = None \<Longrightarrow> slot = Some p"
    and "length requests = length ts"
    and "\<And>p e. p < length ts \<Longrightarrow> ts ! p = RejectedWith e \<Longrightarrow> e = refresh_failed"
    and "list_all (call_ok ts) cs"
    and "\<And>i. i < length cs \<Longrightarrow> leads (cs ! i) \<Longrightarrow> result (cs ! i) = None
           \<Longrightarrow> slot = awaited (cs ! i)"
    and "\<And>i j. i < length cs \<Longrightarrow> j < length cs \<Longrightarrow> leads (cs ! i) \<Longrightarrow> leads (cs ! j)
           \<Longrightarrow> awaited (cs ! i) = awaited (cs ! j) \<Longrightarrow> i = j"
    and "\<And>p. slot = Some p \<Longrightarrow>
           \<exists>i < length cs. leads (cs ! i) \<and> awaited (cs ! i) = Some p \<and> result (cs ! i) = None"
  using assms unfolding protocol_inv.simps by blast+

lemma inv_call_ok:
  assumes "protocol_inv (r, slot, ts, requests, cs)" "i < length cs"
  shows "call_ok ts (cs ! i)"
  using protocol_invD(5)[OF assms(1)] assms(2) by (simp add: list_all_length)

lemma inv_slot_ticket:
  assumes "protocol_inv (r, slot, ts, requests, cs)" "slot = Some p"
  shows "p < length ts"
proof -
  from protocol_invD(8)[OF assms] obtain i where
    i: "i < length cs" "awaited (cs ! i) = Some p" by blast
  from inv_call_ok[OF assms(1) i(1)] i(2) show ?thesis by (simp add: call_ok_def)
qed

text \<open>A call is added at the end: the calls before it stay where they are.\<close>

lemma inv_added:
  assumes inv: "protocol_inv (r, slot, ts, requests, cs)"
    and ok: "call_ok ts c"
    and follower: "\<not> leads c"
  shows "protocol_inv (r, slot, ts, requests, cs @ [c])"
proof (rule protocol_invI)
  note d = protocol_invD[OF inv]
  show "r \<longleftrightarrow> slot \<noteq> None" by (rule d(1))
  show "slot = Some p" if "p < length ts" "ticket_outcome (ts ! p) = None" for p
    using that by (rule d(2))
  show "length requests = length ts" by (rule d(3))
  show "e = refresh_failed" if "p < length ts" "ts ! p = RejectedWith e" for p e
    using that by (rule d(4))
  show "list_all (call_ok ts) (cs @ [c])" using d(5) ok by simp
  show "slot = awaited ((cs @ [c]) ! i)"
    if i: "i < length (cs @ [c])" "leads ((cs @ [c]) ! i)" "result ((cs @ [c]) ! i) = None" for i
  proof (cases "i < length cs")
    case True
    with i d(6)[of i] show ?thesis by (simp add: nth_append)
  next
    case False
    with i(1) have "i = length cs" by simp
    with i(2) follower show ?thesis by simp
  qed
  show "i = j"
    if ij: "i < length (cs @ [c])" "j < length (cs @ [c])" "leads ((cs @ [c]) ! i)"
      "leads ((cs @ [c]) ! j)" "awaited ((cs @ [c]) ! i) = awaited ((cs @ [c]) ! j)" for i j
  proof -
    have "i < length cs"
    proof (rule ccontr)
      assume "\<not> i < length cs"
      with ij(1) have "i = length cs" by simp
      with ij(3) follower show False by simp
    qed
    moreover have "j < length cs"
    proof (rule ccontr)
      assume "\<not> j < length cs"
      with ij(2) have "j = length cs" by simp
      with ij(4) follower show False by simp
    qed
    ultimately show ?thesis using ij(3,4,5) d(7)[of i j] by (simp add: nth_append)
  qed
  show "\<exists>i < length (cs @ [c]). leads ((cs @ [c]) ! i) \<and> awaited ((cs @ [c]) ! i) = Some p
          \<and> result ((cs @ [c]) ! i) = None"
    if "slot = Some p" for p
  proof -
    from d(8)[OF that] obtain i where
      "i < length cs" "leads (cs ! i)" "awaited (cs ! i) = Some p" "result (cs ! i) = None"
      by blast
    then have "i < length (cs @ [c]) \<and> leads ((cs @ [c]) ! i)
        \<and> awaited ((cs @ [c]) ! i) = Some p \<and> result ((cs @ [c]) ! i) = None"
      by (simp add: nth_append)
    then show ?thesis by blast
  qed
qed

lemma inv_join:
  assumes "protocol_inv (r, Some p, ts, requests, cs)"
  shows "protocol_inv (True, Some p, ts, requests,
           cs @ [\<lparr>awaited = Some p, leads = False, result = None\<rparr>])"
proof -
  have r: "r = True" using protocol_invD(1)[OF assms] by simp
  have "p < length ts" using assms by (rule inv_slot_ticket) simp
  then have "call_ok ts \<lparr>awaited = Some p, leads = False, result = None\<rparr>"
    by (simp add: call_ok_def)
  then show ?thesis
    using inv_added[OF assms, of "\<lparr>awaited = Some p, leads = False, result = None\<rparr>"]
    unfolding r by simp
qed

lemma inv_throw:
  assumes "protocol_inv (r, slot, ts, requests, cs)"
  shows "protocol_inv (r, slot, ts, requests,
           cs @ [\<lparr>awaited = None, leads = False, result = Some (Inl no_refresh_token)\<rparr>])"
proof -
  have "call_ok ts \<lparr>awaited = None, leads = False, result = Some (Inl no_refresh_token)\<rparr>"
    by (simp add: call_ok_def)
  then show ?thesis
    using inv_added[OF assms] by simp
qed

lemma inv_start:
  assumes "protocol_inv (r, None, ts, requests, cs)"
  shows "protocol_inv (True, Some (length ts), ts @ [AwaitingResponse], requests @ [x],
           cs @ [\<lparr>awaited = Some (length ts), leads = True, result = None\<rparr>])"
proof (rule protocol_invI)
  note d = protocol_invD[OF assms]
  let ?ts = "ts @ [AwaitingResponse]"
  let ?c = "\<lparr>awaited = Some (length ts), leads = True, result = None\<rparr>"
  let ?cs = "cs @ [?c]"
  have old: "awaited (cs ! i) \<noteq> Some (length ts)" if "i < length cs" for i
    using inv_call_ok[OF assms that] by (auto simp: call_ok_def split: option.splits)
  have resumed: "result (cs ! i) \<noteq> None" if "i < length cs" "leads (cs ! i)" for i
  proof
    assume "result (cs ! i) = None"
    with d(6)[OF that] have "awaited (cs ! i) = None" by simp
    with inv_call_ok[OF assms that(1)] that(2) show False by (simp add: call_ok_def)
  qed
  show "True \<longleftrightarrow> Some (length ts) \<noteq> None" by simp
  show "Some (length ts) = Some p" if p: "p < length ?ts" "ticket_outcome (?ts ! p) = None" for p
  proof (cases "p < length ts")
    case True
    with p(2) have "ticket_outcome (ts ! p) = None" by (simp add: nth_append)
    with d(2)[OF True] show ?thesis by simp
  next
    case False
    with p(1) show ?thesis by simp
  qed
  show "length (requests @ [x]) = length ?ts" using d(3) by simp
  show "e = refresh_failed" if p: "p < length ?ts" "?ts ! p = RejectedWith e" for p e
  proof (cases "p < length ts")
    case True
    with p(2) have "ts ! p = RejectedWith e" by (simp add: nth_append)
    with d(4)[OF True] show ?thesis by simp
  next
    case False
    with p(1) have "p = length ts" by simp
    with p(2) show ?thesis by simp
  qed
  have "call_ok ?ts ?c" by (simp add: call_ok_def)
  moreover have "list_all (call_ok ?ts) cs"
    using d(5) by (simp add: list_all_iff call_ok_append)
  ultimately show "list_all (call_ok ?ts) ?cs" by simp
  show "Some (length ts) = awaited (?cs ! i)"
    if i: "i < length ?cs" "leads (?cs ! i)" "result (?cs ! i) = None" for i
  proof (cases "i < length cs")
    case True
    with i resumed[of i] show ?thesis by (simp add: nth_append)
  next
    case False
    with i(1) have "i = length cs" by simp
    then show ?thesis by simp
  qed
  show "i = j"
    if ij: "i < length ?cs" "j < length ?cs" "leads (?cs ! i)" "leads (?cs ! j)"
      "awaited (?cs ! i) = awaited (?cs ! j)" for i j
  proof (cases "i < length cs")
    case i: True
    show ?thesis
    proof (cases "j < length cs")
      case True
      with i ij(3,4,5) d(7)[of i j] show ?thesis by (simp add: nth_append)
    next
      case False
      with ij(2) have "j = length cs" by simp
      with i ij(5) old[OF i] show ?thesis by (simp add: nth_append)
    qed
  next
    case i: False
    with ij(1) have il: "i = length cs" by simp
    show ?thesis
    proof (cases "j < length cs")
      case True
      with il ij(5) old[OF True] show ?thesis by (simp add: nth_append)
    next
      case False
      with ij(2) il show ?thesis by simp
    qed
  qed
  show "\<exists>i < length ?cs. leads (?cs ! i) \<and> awaited (?cs ! i) = Some p
          \<and> result (?cs ! i) = None"
    if "Some (length ts) = Some p" for p
  proof -
    have "length cs < length ?cs \<and> leads (?cs ! length cs)
        \<and> awaited (?cs ! length cs) = Some p \<and> result (?cs ! length cs) = None"
      using that by simp
    then show ?thesis by blast
  qed
qed

text \<open>A pending ticket moves on: to the update of the store, or to its settlement.\<close>

lemma inv_ticket:
  assumes inv: "protocol_inv (r, slot, ts, requests, cs)"
    and p: "p < length ts" "ticket_outcome (ts ! p) = None"
    and t: "\<And>e. t = RejectedWith e \<Longrightarrow> e = refresh_failed"
  shows "protocol_inv (r, slot, ts[p := t], requests, cs)"
proof (rule protocol_invI)
  note d = protocol_invD[OF inv]
  let ?ts = "ts[p := t]"
  have slot: "slot = Some p" using p by (rule d(2))
  show "r \<longleftrightarrow> slot \<noteq> None" by (rule d(1))
  show "slot = Some q" if q: "q < length ?ts" "ticket_outcome (?ts ! q) = None" for q
  proof (cases "q = p")
    case True
    with slot show ?thesis by simp
  next
    case False
    with q have "q < length ts" "ticket_outcome (ts ! q) = None" by simp_all
    then show ?thesis by (rule d(2))
  qed
  show "length requests = length ?ts" using d(3) by simp
  show "e = refresh_failed" if q: "q < length ?ts" "?ts ! q = RejectedWith e" for q e
  proof (cases "q = p")
    case True
    with q p(1) have "t = RejectedWith e" by simp
    then show ?thesis by (rule t)
  next
    case False
    with q have "q < length ts" "ts ! q = RejectedWith e" by simp_all
    then show ?thesis by (rule d(4))
  qed
  show "list_all (call_ok ?ts) cs"
    using d(5) p by (simp add: list_all_iff call_ok_update)
  show "slot = awaited (cs ! i)" if "i < length cs" "leads (cs ! i)" "result (cs ! i) = None" for i
    using that by (rule d(6))
  show "i = j" if "i < length cs" "j < length cs" "leads (cs ! i)" "leads (cs ! j)"
      "awaited (cs ! i) = awaited (cs ! j)" for i j
    using that by (rule d(7))
  show "\<exists>i < length cs. leads (cs ! i) \<and> awaited (cs ! i) = Some q \<and> result (cs ! i) = None"
    if "slot = Some q" for q
    using that by (rule d(8))
qed

text \<open>A call that returned the ticket's promise is resumed.\<close>

lemma inv_resume_follower:
  assumes inv: "protocol_inv (r, slot, ts, requests, cs)"
    and i: "i < length cs" "awaited (cs ! i) = Some p" "\<not> leads (cs ! i)"
    and settled: "p < length ts" "ticket_outcome (ts ! p) = Some settled"
  shows "protocol_inv (r, slot, ts, requests, cs[i := (cs ! i)\<lparr>result := Some settled\<rparr>])"
proof (rule protocol_invI)
  note d = protocol_invD[OF inv]
  let ?cs = "cs[i := (cs ! i)\<lparr>result := Some settled\<rparr>]"
  have l: "leads (?cs ! j) = leads (cs ! j)" if "j < length cs" for j
    using that by (cases "j = i") simp_all
  have a: "awaited (?cs ! j) = awaited (cs ! j)" if "j < length cs" for j
    using that by (cases "j = i") simp_all
  have res: "result (?cs ! j) = result (cs ! j)" if "j < length cs" "j \<noteq> i" for j
    using that by simp
  show "r \<longleftrightarrow> slot \<noteq> None" by (rule d(1))
  show "slot = Some q" if "q < length ts" "ticket_outcome (ts ! q) = None" for q
    using that by (rule d(2))
  show "length requests = length ts" by (rule d(3))
  show "e = refresh_failed" if "q < length ts" "ts ! q = RejectedWith e" for q e
    using that by (rule d(4))
  show "list_all (call_ok ts) ?cs"
    unfolding list_all_length
  proof (intro allI impI)
    fix j assume j: "j < length ?cs"
    show "call_ok ts (?cs ! j)"
    proof (cases "j = i")
      case True
      with i settled show ?thesis by (simp add: call_ok_def)
    next
      case False
      with j inv_call_ok[OF inv, of j] show ?thesis by simp
    qed
  qed
  show "slot = awaited (?cs ! j)"
    if j: "j < length ?cs" "leads (?cs ! j)" "result (?cs ! j) = None" for j
  proof -
    from j(1) have jl: "j < length cs" by simp
    from j(2) l[OF jl] i(3) have ne: "j \<noteq> i" by auto
    from j l[OF jl] res[OF jl ne] a[OF jl] d(6)[OF jl] show ?thesis by simp
  qed
  show "j = k"
    if jk: "j < length ?cs" "k < length ?cs" "leads (?cs ! j)" "leads (?cs ! k)"
      "awaited (?cs ! j) = awaited (?cs ! k)" for j k
  proof -
    from jk(1,2) have jl: "j < length cs" and kl: "k < length cs" by simp_all
    from jk(3,4,5) l[OF jl] l[OF kl] a[OF jl] a[OF kl] d(7)[OF jl kl] show ?thesis by simp
  qed
  show "\<exists>j < length ?cs. leads (?cs ! j) \<and> awaited (?cs ! j) = Some q \<and> result (?cs ! j) = None"
    if "slot = Some q" for q
  proof -
    from d(8)[OF that] obtain j where
      j: "j < length cs" "leads (cs ! j)" "awaited (cs ! j) = Some q" "result (cs ! j) = None"
      by blast
    from j(2) i(3) have ne: "j \<noteq> i" by auto
    from j l[OF j(1)] a[OF j(1)] res[OF j(1) ne]
    have "j < length ?cs \<and> leads (?cs ! j) \<and> awaited (?cs ! j) = Some q
        \<and> result (?cs ! j) = None" by simp
    then show ?thesis by blast
  qed
qed

text \<open>The call that made the ticket is resumed: it empties the slot.\<close>

lemma inv_resume_leader:
  assumes inv: "protocol_inv (r, slot, ts, requests, cs)"
    and i: "i < length cs" "awaited (cs ! i) = Some p" "leads (cs ! i)" "result (cs ! i) = None"
    and settled: "p < length ts" "ticket_outcome (ts ! p) = Some settled"
  shows "protocol_inv (False, None, ts, requests, cs[i := (cs ! i)\<lparr>result := Some settled\<rparr>])"
proof (rule protocol_invI)
  note d = protocol_invD[OF inv]
  let ?cs = "cs[i := (cs ! i)\<lparr>result := Some settled\<rparr>]"
  have l: "leads (?cs ! j) = leads (cs ! j)" if "j < length cs" for j
    using that by (cases "j = i") simp_all
  have a: "awaited (?cs ! j) = awaited (cs ! j)" if "j < length cs" for j
    using that by (cases "j = i") simp_all
  have res: "result (?cs ! j) = result (cs ! j)" if "j < length cs" "j \<noteq> i" for j
    using that by simp
  have slot: "slot = Some p" using d(6)[OF i(1,3,4)] i(2) by simp
  show "False \<longleftrightarrow> (None :: nat option) \<noteq> None" by simp
  show "None = Some q" if q: "q < length ts" "ticket_outcome (ts ! q) = None" for q
  proof -
    from d(2)[OF q] slot have "q = p" by simp
    with q(2) settled(2) show ?thesis by simp
  qed
  show "length requests = length ts" by (rule d(3))
  show "e = refresh_failed" if "q < length ts" "ts ! q = RejectedWith e" for q e
    using that by (rule d(4))
  show "list_all (call_ok ts) ?cs"
    unfolding list_all_length
  proof (intro allI impI)
    fix j assume j: "j < length ?cs"
    show "call_ok ts (?cs ! j)"
    proof (cases "j = i")
      case True
      with i settled show ?thesis by (simp add: call_ok_def)
    next
      case False
      with j inv_call_ok[OF inv, of j] show ?thesis by simp
    qed
  qed
  show "None = awaited (?cs ! j)"
    if j: "j < length ?cs" "leads (?cs ! j)" "result (?cs ! j) = None" for j
  proof -
    from j(1) have jl: "j < length cs" by simp
    have ne: "j \<noteq> i"
    proof
      assume "j = i"
      with j(3) i(1) show False by simp
    qed
    from j l[OF jl] res[OF jl ne] have lj: "leads (cs ! j)" "result (cs ! j) = None" by simp_all
    from d(6)[OF jl lj] slot i(2) have "awaited (cs ! j) = awaited (cs ! i)" by simp
    with d(7)[OF jl i(1) lj(1) i(3)] ne show ?thesis by simp
  qed
  show "j = k"
    if jk: "j < length ?cs" "k < length ?cs" "leads (?cs ! j)" "leads (?cs ! k)"
      "awaited (?cs ! j) = awaited (?cs ! k)" for j k
  proof -
    from jk(1,2) have jl: "j < length cs" and kl: "k < length cs" by simp_all
    from jk(3,4,5) l[OF jl] l[OF kl] a[OF jl] a[OF kl] d(7)[OF jl kl] show ?thesis by simp
  qed
  show "\<exists>j < length ?cs. leads (?cs ! j) \<and> awaited (?cs ! j) = Some q \<and> result (?cs ! j) = None"
    if "None = Some q" for q
    using that by simp
qed

lemma tm_invD:
  assumes "tm_inv s"
  shows "protocol_inv (isRefreshing s, refreshPromise s, tickets s, refresh_requests s, calls s)"
  using assms by (simp add: tm_inv_def protocol_def)

lemma tm_inv_idle:
  assumes "tm_inv s" "\<not> (isRefreshing s \<and> refreshPromise s \<noteq> None)"
  shows "refreshPromise s = None"
  using protocol_invD(1)[OF tm_invD[OF assms(1)]] assms(2) by blast

lemma tm_inv_flag:
  assumes "tm_inv s" "refreshPromise s = Some p"
  shows "isRefreshing s"
  using protocol_invD(1)[OF tm_invD[OF assms(1)]] assms(2) by simp


lemma tm_inv_refreshAccessToken:
  assumes "tm_inv s"
  shows "tm_inv (refreshAccessToken s)"
proof (cases "isRefreshing s \<and> refreshPromise s \<noteq> None")
  case True
  then obtain p where p: "refreshPromise s = Some p" by auto
  from True have r: "isRefreshing s" by simp
  show ?thesis
    unfolding tm_inv_def protocol_join[OF r p]
    by (rule inv_join[OF tm_invD[OF assms, unfolded p]])
next
  case False
  note idle = tm_inv_idle[OF assms False]
  show ?thesis
  proof (cases "truthy (fst (getRefreshToken s))")
    case True
    show ?thesis
      unfolding tm_inv_def protocol_start[OF False True]
      using tm_invD[OF assms, unfolded idle] by (rule inv_start)
  next
    case no: False
    show ?thesis
      unfolding tm_inv_def protocol_throw[OF False no]
      using tm_invD[OF assms] by (rule inv_throw)
  qed
qed

lemma resumable_settled:
  assumes "resumable i p settled s"
  shows "i < length (calls s)" "result (calls s ! i) = None" "awaited (calls s ! i) = Some p"
    "p < length (tickets s)" "ticket_outcome (tickets s ! p) = Some settled"
  using assms by (auto simp: resumable_def outcome_at_def split: if_splits)

lemma tm_inv_resume:
  assumes "tm_inv s"
  shows "tm_inv (resume i s)"
proof (cases "\<exists>p settled. resumable i p settled s")
  case False
  with assms show ?thesis by (simp add: resume_noop)
next
  case True
  then obtain p settled where r: "resumable i p settled s" by blast
  note f = resumable_settled[OF r]
  show ?thesis
  proof (cases "leads (calls s ! i)")
    case True
    show ?thesis
      unfolding tm_inv_def protocol_resume_leader[OF r True]
      using tm_invD[OF assms] f(1,3) True f(2,4,5) by (rule inv_resume_leader)
  next
    case False
    show ?thesis
      unfolding tm_inv_def protocol_resume_follower[OF r False]
      using tm_invD[OF assms] f(1,3) False f(4,5) by (rule inv_resume_follower)
  qed
qed

lemma tm_inv_frame:
  "protocol s' = protocol s \<Longrightarrow> tm_inv s \<Longrightarrow> tm_inv s'"
  by (simp add: tm_inv_def)

lemma protocol_ticket:
  "protocol (s\<lparr>tickets := ts\<rparr>)
     = (isRefreshing s, refreshPromise s, ts, refresh_requests s, calls s)"
  by (simp add: protocol_def)

lemma tm_inv_ticket:
  assumes "tm_inv s" "p < length (tickets s)" "ticket_outcome (tickets s ! p) = None"
    "\<And>e. t = RejectedWith e \<Longrightarrow> e = refresh_failed"
  shows "tm_inv (s\<lparr>tickets := (tickets s)[p := t]\<rparr>)"
  unfolding tm_inv_def protocol_ticket
  using tm_invD[OF assms(1)] assms(2,3,4) by (rule inv_ticket)

text \<open>What each event does to the tickets.\<close>

lemma tickets_setTokens [simp]: "tickets (setTokens access refresh now s) = tickets s"
  using protocol_setTokens[of access refresh now s] by (simp add: protocol_def)

lemma step_response:
  assumes "p < length (tickets s)" "tickets s ! p = AwaitingResponse"
  shows "tm_step (ResponseArrives p (AuthResponse access refresh) now) s
     = (setTokens access refresh now s)
         \<lparr>tickets := (tickets (setTokens access refresh now s))
            [p := (if has_window (setTokens access refresh now s) then UpdatingStore access
                   else Resolved access)]\<rparr>"
  using assms by (simp add: Let_def)

lemma step_response_noop:
  assumes "\<not> (p < length (tickets s) \<and> tickets s ! p = AwaitingResponse)"
  shows "tm_step (ResponseArrives p resp now) s = s"
  using assms by (cases resp) auto

lemma step_fails:
  assumes "p < length (tickets s)" "tickets s ! p = AwaitingResponse"
  shows "tm_step (RequestFails p cause) s
     = s\<lparr>tickets := (tickets s)[p := RejectedWith refresh_failed]\<rparr>"
  using assms by simp

lemma step_fails_noop:
  assumes "\<not> (p < length (tickets s) \<and> tickets s ! p = AwaitingResponse)"
  shows "tm_step (RequestFails p cause) s = s"
  using assms by auto

lemma step_store:
  assumes "p < length (tickets s)" "tickets s ! p = UpdatingStore access"
  shows "tm_step (StoreUpdated p) s = s\<lparr>tickets := (tickets s)[p := Resolved access]\<rparr>"
  using assms by simp

lemma step_store_noop:
  assumes "\<not> (p < length (tickets s) \<and> (\<exists>access. tickets s ! p = UpdatingStore access))"
  shows "tm_step (StoreUpdated p) s = s"
  using assms by (auto split: ticket.splits)

text \<open>
  Every event is one of: a call, the move of a pending ticket, the resumption of a call,
  or an event that leaves the protocol alone.
\<close>

lemma tm_step_cases [case_names call ticket resumes frame]:
  assumes "tm_step ev s = refreshAccessToken s \<Longrightarrow> P"
    and "\<And>p t s1. \<lbrakk>protocol s1 = protocol s; p < length (tickets s);
            ticket_outcome (tickets s ! p) = None;
            \<And>e. t = RejectedWith e \<Longrightarrow> e = refresh_failed;
            tm_step ev s = s1\<lparr>tickets := (tickets s)[p := t]\<rparr>\<rbrakk> \<Longrightarrow> P"
    and "\<And>i. tm_step ev s = resume i s \<Longrightarrow> P"
    and "protocol (tm_step ev s) = protocol s \<Longrightarrow> P"
  shows P
proof (cases ev)
  case RefreshAccessToken
  then show ?thesis by (intro assms(1)) simp
next
  case (ResponseArrives p resp now)
  obtain access refresh where resp: "resp = AuthResponse access refresh" by (cases resp)
  show ?thesis
  proof (cases "p < length (tickets s) \<and> tickets s ! p = AwaitingResponse")
    case False
    then have "tm_step ev s = s" unfolding ResponseArrives by (rule step_response_noop)
    then show ?thesis by (intro assms(4)) simp
  next
    case True
    let ?s1 = "setTokens access refresh now s"
    let ?t = "if has_window ?s1 then UpdatingStore access else Resolved access"
    show ?thesis
    proof (rule assms(2)[of ?s1 p ?t])
      show "protocol ?s1 = protocol s" by simp
      show "p < length (tickets s)" using True by simp
      show "ticket_outcome (tickets s ! p) = None" using True by simp
      show "e = refresh_failed" if "?t = RejectedWith e" for e
        using that by (simp split: if_splits)
      show "tm_step ev s = ?s1\<lparr>tickets := (tickets s)[p := ?t]\<rparr>"
        unfolding ResponseArrives resp using True step_response[of p s access refresh now]
        by simp
    qed
  qed
next
  case (RequestFails p cause)
  show ?thesis
  proof (cases "p < length (tickets s) \<and> tickets s ! p = AwaitingResponse")
    case False
    then have "tm_step ev s = s" unfolding RequestFails by (rule step_fails_noop)
    then show ?thesis by (intro assms(4)) simp
  next
    case True
    show ?thesis
    proof (rule assms(2)[of s p "RejectedWith refresh_failed"])
      show "protocol s = protocol s" by simp
      show "p < length (tickets s)" using True by simp
      show "ticket_outcome (tickets s ! p) = None" using True by simp
      show "e = refresh_failed" if "RejectedWith refresh_failed = RejectedWith e" for e
        using that by simp
      show "tm_step ev s = s\<lparr>tickets := (tickets s)[p := RejectedWith refresh_failed]\<rparr>"
        unfolding RequestFails using True by simp
    qed
  qed
next
  case (StoreUpdated p)
  show ?thesis
  proof (cases "p < length (tickets s) \<and> (\<exists>access. tickets s ! p = UpdatingStore access)")
    case False
    then have "tm_step ev s = s" unfolding StoreUpdated by (rule step_store_noop)
    then show ?thesis by (intro assms(4)) simp
  next
    case True
    then obtain access where a: "p < length (tickets s)" "tickets s ! p = UpdatingStore access"
      by blast
    show ?thesis
    proof (rule assms(2)[of s p "Resolved access"])
      show "protocol s = protocol s" by simp
      show "p < length (tickets s)" by (rule a(1))
      show "ticket_outcome (tickets s ! p) = None" using a(2) by simp
      show "e = refresh_failed" if "Resolved access = RejectedWith e" for e
        using that by simp
      show "tm_step ev s = s\<lparr>tickets := (tickets s)[p := Resolved access]\<rparr>"
        unfolding StoreUpdated using a by simp
    qed
  qed
next
  case (Resumes i)
  then show ?thesis by (intro assms(3)[of i]) simp
next
  case (SetTokens access refresh now)
  then show ?thesis by (intro assms(4)) simp
next
  case ClearTokens
  then show ?thesis by (intro assms(4)) simp
next
  case GetAccessToken
  then show ?thesis by (intro assms(4)) simp
qed

lemma protocol_moved:
  assumes "protocol s1 = protocol s"
  shows "protocol (s1\<lparr>tickets := ts\<rparr>) = protocol (s\<lparr>tickets := ts\<rparr>)"
  using assms by (simp add: protocol_def)

lemma tm_inv_step:
  assumes "tm_inv s"
  shows "tm_inv (tm_step ev s)"
proof (cases rule: tm_step_cases[of ev s])
  case call
  with assms show ?thesis by (simp add: tm_inv_refreshAccessToken)
next
  case (ticket p t s1)
  have "tm_inv (s\<lparr>tickets := (tickets s)[p := t]\<rparr>)"
    using assms ticket(2,3,4) by (rule tm_inv_ticket)
  with protocol_moved[OF ticket(1)] show ?thesis
    unfolding ticket(5) by (simp add: tm_inv_def)
next
  case (resumes i)
  with assms show ?thesis by (simp add: tm_inv_resume)
next
  case frame
  then show ?thesis using assms by (rule tm_inv_frame)
qed

lemma tm_inv_run: "tm_inv s \<Longrightarrow> tm_inv (tm_run evs s)"
  by (induction evs arbitrary: s) (simp_all add: tm_inv_step)

lemma tm_inv_new: "tm_inv (new_token_manager production window available stored)"
  by (simp add: tm_inv_def protocol_def new_token_manager_def)

subsection \<open>What a step keeps\<close>

lemma refreshAccessToken_grows:
  "(tickets (refreshAccessToken s) = tickets s
      \<or> tickets (refreshAccessToken s) = tickets s @ [AwaitingResponse])
   \<and> (\<exists>c. calls (refreshAccessToken s) = calls s @ [c])"
proof (cases "isRefreshing s \<and> refreshPromise s \<noteq> None")
  case True
  then obtain q where "refreshPromise s = Some q" by auto
  with True protocol_join[of s q] show ?thesis by (simp add: protocol_def)
next
  case False
  show ?thesis
    using protocol_start[OF False] protocol_throw[OF False]
    by (cases "truthy (fst (getRefreshToken s))") (simp_all add: protocol_def)
qed

lemma resume_keeps:
  "tickets (resume i s) = tickets s \<and> refresh_requests (resume i s) = refresh_requests s
   \<and> (calls (resume i s) = calls s
        \<or> (\<exists>p settled. resumable i p settled s
              \<and> calls (resume i s) = (calls s)[i := (calls s ! i)\<lparr>result := Some settled\<rparr>]))"
proof (cases "\<exists>p settled. resumable i p settled s")
  case False
  then show ?thesis by (simp add: resume_noop)
next
  case True
  then obtain p settled where r: "resumable i p settled s" by blast
  show ?thesis
  proof (cases "leads (calls s ! i)")
    case True
    from protocol_resume_leader[OF r True] r show ?thesis
      by (auto simp: protocol_def)
  next
    case False
    from protocol_resume_follower[OF r False] r show ?thesis
      by (auto simp: protocol_def)
  qed
qed

lemma settled_stays:
  assumes "outcome_at s p = Some settled"
  shows "outcome_at (tm_step ev s) p = Some settled"
proof -
  from assms have p: "p < length (tickets s)" "ticket_outcome (tickets s ! p) = Some settled"
    by (auto simp: outcome_at_def split: if_splits)
  show ?thesis
  proof (cases rule: tm_step_cases[of ev s])
    case call
    with refreshAccessToken_grows[of s] p show ?thesis
      by (auto simp: outcome_at_def nth_append)
  next
    case (ticket q t s1)
    from ticket(3) p(2) have "q \<noteq> p" by auto
    with p show ?thesis unfolding ticket(5) by (simp add: outcome_at_def)
  next
    case (resumes i)
    with resume_keeps[of i s] p show ?thesis by (simp add: outcome_at_def)
  next
    case frame
    then have "tickets (tm_step ev s) = tickets s" by (simp add: protocol_def)
    with p show ?thesis by (simp add: outcome_at_def)
  qed
qed

lemma settled_stays_run:
  "outcome_at s p = Some settled \<Longrightarrow> outcome_at (tm_run evs s) p = Some settled"
  by (induction evs arbitrary: s) (simp_all add: settled_stays)



lemma tm_inv_call:
  assumes "tm_inv s" "i < length (calls s)"
  shows "awaited (calls s ! i) = Some p \<Longrightarrow>
           p < length (tickets s)
           \<and> (result (calls s ! i) = None \<or> result (calls s ! i) = outcome_at s p)"
    and "awaited (calls s ! i) = None \<Longrightarrow>
           \<not> leads (calls s ! i) \<and> result (calls s ! i) = Some (Inl no_refresh_token)"
proof -
  note ok = inv_call_ok[OF tm_invD[OF assms(1)] assms(2)]
  show "p < length (tickets s)
      \<and> (result (calls s ! i) = None \<or> result (calls s ! i) = outcome_at s p)"
    if "awaited (calls s ! i) = Some p"
    using ok that by (simp add: call_ok_def outcome_at_def)
  show "\<not> leads (calls s ! i) \<and> result (calls s ! i) = Some (Inl no_refresh_token)"
    if "awaited (calls s ! i) = None"
    using ok that by (simp add: call_ok_def)
qed

lemma tm_inv_rejections:
  assumes "tm_inv s" "outcome_at s p = Some (Inl e)"
  shows "e = refresh_failed"
proof -
  from assms(2) have p: "p < length (tickets s)" "ticket_outcome (tickets s ! p) = Some (Inl e)"
    by (auto simp: outcome_at_def split: if_splits)
  from p(2) have "tickets s ! p = RejectedWith e"
    by (cases "tickets s ! p") simp_all
  with protocol_invD(4)[OF tm_invD[OF assms(1)] p(1)] show ?thesis by simp
qed

subsection \<open>Calls made while the slot is filled\<close>





subsection \<open>Single flight\<close>

lemma refresh_without_token:
  assumes "refreshPromise s = None" "\<not> truthy (fst (getRefreshToken s))"
  shows "calls (refreshAccessToken s)
           = calls s @ [\<lparr>awaited = None, leads = False, result = Some (Inl no_refresh_token)\<rparr>]"
    and "refresh_requests (refreshAccessToken s) = refresh_requests s"
    and "tickets (refreshAccessToken s) = tickets s"
    and "refreshPromise (refreshAccessToken s) = None"
proof -
  have idle: "\<not> (isRefreshing s \<and> refreshPromise s \<noteq> None)" using assms(1) by simp
  from protocol_throw[OF idle assms(2)] assms(1)
  show "calls (refreshAccessToken s)
           = calls s @ [\<lparr>awaited = None, leads = False, result = Some (Inl no_refresh_token)\<rparr>]"
    and "refresh_requests (refreshAccessToken s) = refresh_requests s"
    and "tickets (refreshAccessToken s) = tickets s"
    and "refreshPromise (refreshAccessToken s) = None"
    by (simp_all add: protocol_def)
qed

lemma refresh_with_token:
  assumes "refreshPromise s = None" "truthy (fst (getRefreshToken s))"
  shows "calls (refreshAccessToken s)
           = calls s @ [\<lparr>awaited = Some (length (tickets s)), leads = True, result = None\<rparr>]"
    and "length (refresh_requests (refreshAccessToken s)) = length (refresh_requests s) + 1"
    and "refreshPromise (refreshAccessToken s) = Some (length (tickets s))"
proof -
  have idle: "\<not> (isRefreshing s \<and> refreshPromise s \<noteq> None)" using assms(1) by simp
  from protocol_start[OF idle assms(2)]
  show "calls (refreshAccessToken s)
           = calls s @ [\<lparr>awaited = Some (length (tickets s)), leads = True, result = None\<rparr>]"
    and "length (refresh_requests (refreshAccessToken s)) = length (refresh_requests s) + 1"
    and "refreshPromise (refreshAccessToken s) = Some (length (tickets s))"
    by (simp_all add: protocol_def)
qed

lemmas tm_eval =
  new_token_manager_def setTokens_def setSecureItem_def getSecureItem_def
  removeSecureItem_def clearTokens_def getRefreshToken_def getAccessToken_def
  refreshAccessToken_def resume_def outcome_at_def truthy_def js_def Let_def




subsection \<open>Rejections\<close>

text \<open>
  Claim C5, as stated: a call fails with the no-credential error when there is no
  refresh token, and any other failure wraps its cause. Neither holds. The error of a
  failed renewal is \<^verbatim>\<open>new Error("Token refresh failed")\<close> whatever the request raised:
  the cause is logged and dropped, and the error that the callers receive carries none.
  And a call made while a ticket fills the slot returns that ticket's promise before it
  looks for a refresh token: below, the tokens are cleared while ticket 0 is in flight,
  and the second call, made without any refresh token, awaits ticket 0 instead of
  failing.
\<close>

theorem refresh_failure_counterexample:
  "result (calls (tm_run
      [SetTokens (js ''a'') (Some (js ''r'')) 0, RefreshAccessToken,
       RequestFails 0 (ThrownError (js ''TimeoutError'') (js ''Request timed out'') ResponseAbsent),
       Resumes 0]
      (new_token_manager False False False (\<lambda>k. None))) ! 0)
     = Some (Inl (JsError (js ''Token refresh failed'') None))
   \<and> cause_of (JsError (js ''Token refresh failed'') None) = None
   \<and> fst (getRefreshToken (tm_run
      [SetTokens (js ''a'') (Some (js ''r'')) 0, RefreshAccessToken, ClearTokens]
      (new_token_manager False False False (\<lambda>k. None)))) = None
   \<and> calls (tm_run
      [SetTokens (js ''a'') (Some (js ''r'')) 0, RefreshAccessToken, ClearTokens,
       RefreshAccessToken]
      (new_token_manager False False False (\<lambda>k. None))) ! 1
     = \<lparr>awaited = Some 0, leads = False, result = None\<rparr>"
  by (simp add: tm_eval refresh_failed_def)

text \<open>
  Claim C5, amended. In every state that a token manager reaches from its construction:
  a call that finds the slot empty and no refresh token sends no request and is rejected
  at once with \<^verbatim>\<open>Error("No refresh token available")\<close>; a call that finds a ticket in
  the slot awaits it, with or without a refresh token. Every rejection that a call
  receives is one of two errors: "No refresh token available", when the call awaited no
  ticket, or "Token refresh failed", the rejection of the ticket that it awaited. A
  ticket whose request fails is rejected with "Token refresh failed" whatever the
  request raised, and that error carries no cause. Two calls that await the same ticket
  and have settled hold the same result or the same rejection.
\<close>

theorem refresh_rejections:
  fixes evs :: "tm_event list"
    and production window available :: bool and stored :: "jsstring \<Rightarrow> jsstring option"
  defines "s \<equiv> tm_run evs (new_token_manager production window available stored)"
  shows "(refreshPromise s = None \<and> \<not> truthy (fst (getRefreshToken s)) \<longrightarrow>
         refresh_requests (refreshAccessToken s) = refresh_requests s
         \<and> calls (refreshAccessToken s)
           = calls s @ [\<lparr>awaited = None, leads = False, result = Some (Inl no_refresh_token)\<rparr>])
    \<and> (refreshPromise s = Some q \<longrightarrow>
         refresh_requests (refreshAccessToken s) = refresh_requests s
         \<and> calls (refreshAccessToken s)
           = calls s @ [\<lparr>awaited = Some q, leads = False, result = None\<rparr>])
    \<and> (\<forall>i < length (calls s). \<forall>e. result (calls s ! i) = Some (Inl e) \<longrightarrow>
          (awaited (calls s ! i) = None \<and> e = no_refresh_token)
          \<or> (\<exists>p. awaited (calls s ! i) = Some p
                \<and> outcome_at s p = Some (Inl refresh_failed) \<and> e = refresh_failed))
    \<and> (\<forall>i < length (calls s). \<forall>j < length (calls s).
          awaited (calls s ! i) = awaited (calls s ! j)
          \<and> result (calls s ! i) \<noteq> None \<and> result (calls s ! j) \<noteq> None \<longrightarrow>
          result (calls s ! i) = result (calls s ! j))
    \<and> (p < length (tickets s) \<and> tickets s ! p = AwaitingResponse \<longrightarrow>
          outcome_at (tm_step (RequestFails p cause) s) p = Some (Inl refresh_failed))
    \<and> (\<forall>p e. outcome_at s p = Some (Inl e) \<longrightarrow> e = refresh_failed)
    \<and> refresh_failed = JsError (js ''Token refresh failed'') None
    \<and> cause_of refresh_failed = None
    \<and> no_refresh_token = JsError (js ''No refresh token available'') None"
proof -
  have inv: "tm_inv s" unfolding s_def using tm_inv_new by (rule tm_inv_run)
  have a: "refresh_requests (refreshAccessToken s) = refresh_requests s
         \<and> calls (refreshAccessToken s)
           = calls s @ [\<lparr>awaited = None, leads = False, result = Some (Inl no_refresh_token)\<rparr>]"
    if "refreshPromise s = None" "\<not> truthy (fst (getRefreshToken s))"
    using refresh_without_token[OF that] by simp
  have b: "refresh_requests (refreshAccessToken s) = refresh_requests s
         \<and> calls (refreshAccessToken s)
           = calls s @ [\<lparr>awaited = Some q, leads = False, result = None\<rparr>]"
    if q: "refreshPromise s = Some q"
    using protocol_join[OF tm_inv_flag[OF inv q] q] by (simp add: protocol_def)
  have rej: "e = refresh_failed" if "outcome_at s p = Some (Inl e)" for p e
    using inv that by (rule tm_inv_rejections)
  have c: "(awaited (calls s ! i) = None \<and> e = no_refresh_token)
          \<or> (\<exists>p. awaited (calls s ! i) = Some p
                \<and> outcome_at s p = Some (Inl refresh_failed) \<and> e = refresh_failed)"
    if i: "i < length (calls s)" and r: "result (calls s ! i) = Some (Inl e)" for i e
  proof (cases "awaited (calls s ! i)")
    case None
    with tm_inv_call(2)[OF inv i] r show ?thesis by simp
  next
    case (Some p)
    with tm_inv_call(1)[OF inv i] r have o: "outcome_at s p = Some (Inl e)" by simp
    with rej[OF o] Some show ?thesis by simp
  qed
  have d: "result (calls s ! i) = result (calls s ! j)"
    if i: "i < length (calls s)" and j: "j < length (calls s)"
      and same: "awaited (calls s ! i) = awaited (calls s ! j)"
      and set: "result (calls s ! i) \<noteq> None" "result (calls s ! j) \<noteq> None" for i j
  proof (cases "awaited (calls s ! i)")
    case None
    with tm_inv_call(2)[OF inv i] tm_inv_call(2)[OF inv j] same show ?thesis by simp
  next
    case (Some p)
    with tm_inv_call(1)[OF inv i, of p] tm_inv_call(1)[OF inv j, of p] same set
    show ?thesis by simp
  qed
  have e: "outcome_at (tm_step (RequestFails p cause) s) p = Some (Inl refresh_failed)"
    if "p < length (tickets s)" "tickets s ! p = AwaitingResponse"
    using that by (simp add: outcome_at_def)
  have f: "refresh_failed = JsError (js ''Token refresh failed'') None
      \<and> cause_of refresh_failed = None
      \<and> no_refresh_token = JsError (js ''No refresh token available'') None"
    by (simp add: refresh_failed_def no_refresh_token_def)
  show ?thesis using a b c d e rej f by blast
qed

theorem refresh_rejections_witness:
  "map result (calls (tm_run
      [RefreshAccessToken, SetTokens (js ''a'') (Some (js ''r'')) 0, RefreshAccessToken,
       RefreshAccessToken, RequestFails 0 ThrownOther, Resumes 1, Resumes 2]
      (new_token_manager False False False (\<lambda>k. None))))
     = [Some (Inl no_refresh_token), Some (Inl refresh_failed), Some (Inl refresh_failed)]
   \<and> calls (refreshAccessToken (tm_run
      [RefreshAccessToken, SetTokens (js ''a'') (Some (js ''r'')) 0, RefreshAccessToken,
       RefreshAccessToken, RequestFails 0 ThrownOther, Resumes 1, Resumes 2]
      (new_token_manager False False False (\<lambda>k. None)))) ! 3
     = \<lparr>awaited = None, leads = False, result = Some (Inl no_refresh_token)\<rparr>
   \<and> outcome_at (tm_step (RequestFails 0 (ThrownString (js ''offline'')))
        (tm_run [SetTokens (js ''a'') (Some (js ''r'')) 0, RefreshAccessToken]
           (new_token_manager False False False (\<lambda>k. None)))) 0
     = Some (Inl refresh_failed)"
proof -
  let ?evs = "[RefreshAccessToken, SetTokens (js ''a'') (Some (js ''r'')) 0, RefreshAccessToken,
       RefreshAccessToken, RequestFails 0 ThrownOther, Resumes 1, Resumes 2]"
  let ?s = "tm_run ?evs (new_token_manager False False False (\<lambda>k. None))"
  let ?t = "tm_run [SetTokens (js ''a'') (Some (js ''r'')) 0, RefreshAccessToken]
           (new_token_manager False False False (\<lambda>k. None))"
  have h: "refreshPromise ?s = None \<and> \<not> truthy (fst (getRefreshToken ?s))"
    by (simp add: tm_eval)
  have n: "length (calls ?s) = 3" by (simp add: tm_eval)
  from h refresh_rejections[where evs="?evs" and production=False and window=False
      and available=False and stored="\<lambda>k. None"]
  have "calls (refreshAccessToken ?s)
      = calls ?s @ [\<lparr>awaited = None, leads = False, result = Some (Inl no_refresh_token)\<rparr>]"
    by blast
  then have a: "calls (refreshAccessToken ?s) ! 3
      = \<lparr>awaited = None, leads = False, result = Some (Inl no_refresh_token)\<rparr>"
    using n by (simp add: nth_append)
  have h': "0 < length (tickets ?t) \<and> tickets ?t ! 0 = AwaitingResponse"
    by (simp add: tm_eval)
  from h' refresh_rejections[where evs="[SetTokens (js ''a'') (Some (js ''r'')) 0, RefreshAccessToken]"
      and production=False and window=False and available=False and stored="\<lambda>k. None"
      and p=0 and cause="ThrownString (js ''offline'')"]
  have b: "outcome_at (tm_step (RequestFails 0 (ThrownString (js ''offline''))) ?t) 0
      = Some (Inl refresh_failed)"
    by blast
  have c: "map result (calls ?s)
      = [Some (Inl no_refresh_token), Some (Inl refresh_failed), Some (Inl refresh_failed)]"
    by (simp add: tm_eval)
  show ?thesis using a b c by blast
qed

subsection \<open>The slot after a renewal\<close>

lemma cleared:
  "accessToken (clearTokens s) = None \<and> refreshToken (clearTokens s) = None
   \<and> getSecureItem (js ''accessToken'') (clearTokens s) = None
   \<and> getSecureItem (js ''refreshToken'') (clearTokens s) = None
   \<and> getSecureItem (js ''tokenExpiry'') (clearTokens s) = None"
  by (simp add: clearTokens_def removeSecureItem_def getSecureItem_def truthy_def)

lemma getSecureItem_calls [simp]:
  "getSecureItem k (s\<lparr>calls := cs\<rparr>) = getSecureItem k s"
  by (simp add: getSecureItem_def)

lemma resume_leader_rejected:
  assumes "resumable i p (Inl e) s" "leads (calls s ! i)"
  shows "resume i s
     = (clearTokens (s\<lparr>isRefreshing := False, refreshPromise := None\<rparr>))
         \<lparr>calls := (calls s)[i := (calls s ! i)\<lparr>result := Some (Inl e)\<rparr>]\<rparr>"
proof -
  have "calls (clearTokens (s\<lparr>isRefreshing := False, refreshPromise := None\<rparr>)) = calls s"
    using protocol_clearTokens[of "s\<lparr>isRefreshing := False, refreshPromise := None\<rparr>"]
    by (simp add: protocol_def)
  with assms show ?thesis
    by (simp add: resume_def resumable_def Let_def)
qed

lemma no_token_after_clearing:
  "\<not> truthy (fst (getRefreshToken ((clearTokens s)\<lparr>calls := cs\<rparr>)))"
proof -
  from cleared[of s] have "refreshToken ((clearTokens s)\<lparr>calls := cs\<rparr>) = None"
    "getSecureItem (js ''refreshToken'') ((clearTokens s)\<lparr>calls := cs\<rparr>) = None"
    by simp_all
  then show ?thesis
    by (simp add: getRefreshToken_def Let_def truthy_def)
qed

lemma refresh_keeps_tokens:
  assumes "refreshPromise s = None" "\<not> truthy (fst (getRefreshToken s))"
  shows "accessToken (refreshAccessToken s) = accessToken s"
    and "storage (refreshAccessToken s) = storage s"
  using assms by (simp_all add: refreshAccessToken_def getRefreshToken_def Let_def split_beta)

text \<open>
  Claim C6, as stated: whenever a call of \<open>refreshAccessToken\<close> fails, the tokens are
  cleared. Not when it fails for want of a refresh token: that error is thrown before
  the \<^verbatim>\<open>try\<close> statement whose \<^verbatim>\<open>catch\<close> block clears the tokens. Below, the token
  manager holds an access token and no refresh token; the call is rejected, and the
  access token is still there, in the field and in the storage.
\<close>

theorem refresh_failure_keeps_access_token_counterexample:
  "result (calls (tm_run [SetTokens (js ''a'') None 0, RefreshAccessToken]
      (new_token_manager False True True (\<lambda>k. None))) ! 0)
     = Some (Inl no_refresh_token)
   \<and> accessToken (tm_run [SetTokens (js ''a'') None 0, RefreshAccessToken]
      (new_token_manager False True True (\<lambda>k. None))) = Some (js ''a'')
   \<and> getSecureItem (js ''accessToken'')
       (tm_run [SetTokens (js ''a'') None 0, RefreshAccessToken]
          (new_token_manager False True True (\<lambda>k. None))) = Some (js ''a'')"
  by (simp add: tm_eval)

text \<open>
  Claim C6, amended. In every state that a token manager reaches from its construction,
  the slot is filled exactly as long as the call that made its ticket has not been
  resumed. When that call is resumed, its ticket having settled, with a result or with a
  rejection: the slot is emptied, flag and promise, and the call settles as the ticket
  did. If the ticket was rejected, the rejection is "Token refresh failed", the access
  token and the refresh token are cleared, in the fields and in the storage, together
  with the expiry; the next call then finds no refresh token, sends no request and is
  rejected with "No refresh token available". If a refresh token is present when the
  next call is made, the call makes a new ticket and sends a new request. In neither
  case does it await the past ticket. A call that returned the ticket's promise settles
  as the ticket did. A call that fails for want of a refresh token leaves the access
  token and the storage as they are.
\<close>

theorem refresh_empties_slot:
  fixes evs :: "tm_event list"
    and production window available :: bool and stored :: "jsstring \<Rightarrow> jsstring option"
    and i :: nat
  defines "s \<equiv> tm_run evs (new_token_manager production window available stored)"
  defines "s' \<equiv> tm_step (Resumes i) s"
  shows "(isRefreshing s \<longleftrightarrow> refreshPromise s \<noteq> None)
    \<and> (\<forall>q. refreshPromise s = Some q \<longrightarrow>
          (\<exists>k < length (calls s). leads (calls s ! k) \<and> awaited (calls s ! k) = Some q
              \<and> result (calls s ! k) = None))
    \<and> (\<forall>k < length (calls s). leads (calls s ! k) \<and> result (calls s ! k) = None \<longrightarrow>
          refreshPromise s = awaited (calls s ! k))
    \<and> (resumable i p settled s \<and> leads (calls s ! i) \<longrightarrow>
         refreshPromise s = Some p
         \<and> refreshPromise s' = None \<and> \<not> isRefreshing s'
         \<and> result (calls s' ! i) = Some settled
         \<and> p < length (tickets s')
         \<and> (\<forall>e. settled = Inl e \<longrightarrow>
              e = refresh_failed
              \<and> accessToken s' = None \<and> refreshToken s' = None
              \<and> getSecureItem (js ''accessToken'') s' = None
              \<and> getSecureItem (js ''refreshToken'') s' = None
              \<and> getSecureItem (js ''tokenExpiry'') s' = None
              \<and> refresh_requests (refreshAccessToken s') = refresh_requests s'
              \<and> calls (refreshAccessToken s')
                = calls s' @ [\<lparr>awaited = None, leads = False,
                               result = Some (Inl no_refresh_token)\<rparr>])
         \<and> (truthy (fst (getRefreshToken s')) \<longrightarrow>
              refreshPromise (refreshAccessToken s') = Some (length (tickets s'))
              \<and> length (refresh_requests (refreshAccessToken s'))
                = length (refresh_requests s') + 1
              \<and> calls (refreshAccessToken s')
                = calls s' @ [\<lparr>awaited = Some (length (tickets s')), leads = True,
                               result = None\<rparr>]))
    \<and> (resumable i p settled s \<and> \<not> leads (calls s ! i) \<longrightarrow>
         result (calls s' ! i) = Some settled
         \<and> refreshPromise s' = refreshPromise s
         \<and> (\<forall>e. settled = Inl e \<longrightarrow> e = refresh_failed))
    \<and> (refreshPromise s = None \<and> \<not> truthy (fst (getRefreshToken s)) \<longrightarrow>
         accessToken (refreshAccessToken s) = accessToken s
         \<and> storage (refreshAccessToken s) = storage s)"
proof -
  have inv: "tm_inv s" unfolding s_def using tm_inv_new by (rule tm_inv_run)
  note d = protocol_invD[OF tm_invD[OF inv]]
  have s': "s' = resume i s" by (simp add: s'_def)
  have a: "isRefreshing s \<longleftrightarrow> refreshPromise s \<noteq> None" by (rule d(1))
  have b: "\<exists>k < length (calls s). leads (calls s ! k) \<and> awaited (calls s ! k) = Some q
              \<and> result (calls s ! k) = None"
    if "refreshPromise s = Some q" for q
    using that by (rule d(8))
  have c: "refreshPromise s = awaited (calls s ! k)"
    if "k < length (calls s)" "leads (calls s ! k)" "result (calls s ! k) = None" for k
    using that by (rule d(6))
  have rej: "e = refresh_failed" if "resumable i p settled s" "settled = Inl e" for e
  proof -
    from that have "outcome_at s p = Some (Inl e)" by (simp add: resumable_def)
    with inv show ?thesis by (rule tm_inv_rejections)
  qed
  have leader: "refreshPromise s = Some p
         \<and> refreshPromise s' = None \<and> \<not> isRefreshing s'
         \<and> result (calls s' ! i) = Some settled
         \<and> p < length (tickets s')
         \<and> (\<forall>e. settled = Inl e \<longrightarrow>
              e = refresh_failed
              \<and> accessToken s' = None \<and> refreshToken s' = None
              \<and> getSecureItem (js ''accessToken'') s' = None
              \<and> getSecureItem (js ''refreshToken'') s' = None
              \<and> getSecureItem (js ''tokenExpiry'') s' = None
              \<and> refresh_requests (refreshAccessToken s') = refresh_requests s'
              \<and> calls (refreshAccessToken s')
                = calls s' @ [\<lparr>awaited = None, leads = False,
                               result = Some (Inl no_refresh_token)\<rparr>])
         \<and> (truthy (fst (getRefreshToken s')) \<longrightarrow>
              refreshPromise (refreshAccessToken s') = Some (length (tickets s'))
              \<and> length (refresh_requests (refreshAccessToken s'))
                = length (refresh_requests s') + 1
              \<and> calls (refreshAccessToken s')
                = calls s' @ [\<lparr>awaited = Some (length (tickets s')), leads = True,
                               result = None\<rparr>])"
    if r: "resumable i p settled s" and l: "leads (calls s ! i)"
  proof -
    note f = resumable_settled[OF r]
    have slot: "refreshPromise s = Some p" using c[OF f(1) l f(2)] f(3) by simp
    from protocol_resume_leader[OF r l]
    have p': "refreshPromise s' = None" "\<not> isRefreshing s'" "tickets s' = tickets s"
      "calls s' = (calls s)[i := (calls s ! i)\<lparr>result := Some settled\<rparr>]"
      by (simp_all add: protocol_def s')
    have res: "result (calls s' ! i) = Some settled" using p'(4) f(1) by simp
    have t: "p < length (tickets s')" using p'(3) f(4) by simp
    have failed: "e = refresh_failed
              \<and> accessToken s' = None \<and> refreshToken s' = None
              \<and> getSecureItem (js ''accessToken'') s' = None
              \<and> getSecureItem (js ''refreshToken'') s' = None
              \<and> getSecureItem (js ''tokenExpiry'') s' = None
              \<and> refresh_requests (refreshAccessToken s') = refresh_requests s'
              \<and> calls (refreshAccessToken s')
                = calls s' @ [\<lparr>awaited = None, leads = False,
                               result = Some (Inl no_refresh_token)\<rparr>]"
      if e: "settled = Inl e" for e
    proof -
      let ?s0 = "s\<lparr>isRefreshing := False, refreshPromise := None\<rparr>"
      let ?cs = "(calls s)[i := (calls s ! i)\<lparr>result := Some (Inl e)\<rparr>]"
      have st: "s' = (clearTokens ?s0)\<lparr>calls := ?cs\<rparr>"
        unfolding s' using r l unfolding e by (rule resume_leader_rejected)
      have tok: "accessToken s' = None \<and> refreshToken s' = None
              \<and> getSecureItem (js ''accessToken'') s' = None
              \<and> getSecureItem (js ''refreshToken'') s' = None
              \<and> getSecureItem (js ''tokenExpiry'') s' = None"
        unfolding st using cleared[of ?s0] by simp
      have "\<not> truthy (fst (getRefreshToken s'))"
        unfolding st by (rule no_token_after_clearing)
      from refresh_without_token(1,2)[OF p'(1) this] rej[OF r e] tok
      show ?thesis by simp
    qed
    have fresh: "refreshPromise (refreshAccessToken s') = Some (length (tickets s'))
              \<and> length (refresh_requests (refreshAccessToken s'))
                = length (refresh_requests s') + 1
              \<and> calls (refreshAccessToken s')
                = calls s' @ [\<lparr>awaited = Some (length (tickets s')), leads = True,
                               result = None\<rparr>]"
      if "truthy (fst (getRefreshToken s'))"
      using refresh_with_token[OF p'(1) that] by simp
    show ?thesis using slot p'(1,2) res t failed fresh by blast
  qed
  have follower: "result (calls s' ! i) = Some settled
         \<and> refreshPromise s' = refreshPromise s
         \<and> (\<forall>e. settled = Inl e \<longrightarrow> e = refresh_failed)"
    if r: "resumable i p settled s" and l: "\<not> leads (calls s ! i)"
  proof -
    note f = resumable_settled[OF r]
    from protocol_resume_follower[OF r l]
    have "refreshPromise s' = refreshPromise s"
      "calls s' = (calls s)[i := (calls s ! i)\<lparr>result := Some settled\<rparr>]"
      by (simp_all add: protocol_def s')
    with f(1) rej[OF r] show ?thesis by simp
  qed
  have keeps: "accessToken (refreshAccessToken s) = accessToken s
         \<and> storage (refreshAccessToken s) = storage s"
    if "refreshPromise s = None" "\<not> truthy (fst (getRefreshToken s))"
    using refresh_keeps_tokens[OF that] by simp
  show ?thesis using a b c leader follower keeps by blast
qed

theorem refresh_empties_slot_witness:
  "refreshPromise (tm_run
      [SetTokens (js ''a'') (Some (js ''r'')) 0, RefreshAccessToken,
       RequestFails 0 ThrownOther, Resumes 0]
      (new_token_manager False True True (\<lambda>k. None))) = None
   \<and> accessToken (tm_run
      [SetTokens (js ''a'') (Some (js ''r'')) 0, RefreshAccessToken,
       RequestFails 0 ThrownOther, Resumes 0]
      (new_token_manager False True True (\<lambda>k. None))) = None
   \<and> getSecureItem (js ''refreshToken'') (tm_run
      [SetTokens (js ''a'') (Some (js ''r'')) 0, RefreshAccessToken,
       RequestFails 0 ThrownOther, Resumes 0]
      (new_token_manager False True True (\<lambda>k. None))) = None
   \<and> result (calls (tm_run
      [SetTokens (js ''a'') (Some (js ''r'')) 0, RefreshAccessToken,
       RequestFails 0 ThrownOther, Resumes 0]
      (new_token_manager False True True (\<lambda>k. None))) ! 0) = Some (Inl refresh_failed)
   \<and> refreshPromise (tm_run
      [SetTokens (js ''a'') (Some (js ''r'')) 0, RefreshAccessToken,
       ResponseArrives 0 (AuthResponse (js ''b'') None) 5, StoreUpdated 0, Resumes 0,
       RefreshAccessToken]
      (new_token_manager False True True (\<lambda>k. None))) = Some 1"
proof -
  let ?new = "new_token_manager False True True (\<lambda>k. None)"
  let ?evs = "[SetTokens (js ''a'') (Some (js ''r'')) 0, RefreshAccessToken,
       RequestFails 0 ThrownOther]"
  let ?s = "tm_run ?evs ?new"
  let ?evs2 = "[SetTokens (js ''a'') (Some (js ''r'')) 0, RefreshAccessToken,
       ResponseArrives 0 (AuthResponse (js ''b'') None) 5, StoreUpdated 0]"
  let ?t = "tm_run ?evs2 ?new"
  have run: "tm_run (?evs @ [Resumes 0]) ?new = tm_step (Resumes 0) ?s"
    by simp
  have run2: "tm_run (?evs2 @ [Resumes 0, RefreshAccessToken]) ?new
      = refreshAccessToken (tm_step (Resumes 0) ?t)"
    by simp
  have h: "resumable 0 0 (Inl refresh_failed) ?s \<and> leads (calls ?s ! 0)"
    by (simp add: resumable_def tm_eval)
  from h refresh_empties_slot[where i=0 and p=0 and settled="Inl refresh_failed" and evs="?evs"
      and production=False and window=True and available=True and stored="\<lambda>k. None"]
  have a: "refreshPromise (tm_step (Resumes 0) ?s) = None
      \<and> result (calls (tm_step (Resumes 0) ?s) ! 0) = Some (Inl refresh_failed)
      \<and> accessToken (tm_step (Resumes 0) ?s) = None
      \<and> getSecureItem (js ''refreshToken'') (tm_step (Resumes 0) ?s) = None"
    by blast
  have h2: "resumable 0 0 (Inr (js ''b'')) ?t \<and> leads (calls ?t ! 0)"
    by (simp add: resumable_def tm_eval)
  have tok: "truthy (fst (getRefreshToken (tm_step (Resumes 0) ?t)))"
    by (simp add: tm_eval)
  have len: "length (tickets (tm_step (Resumes 0) ?t)) = 1"
    by (simp add: tm_eval)
  from h2 tok refresh_empties_slot[where i=0 and p=0 and settled="Inr (js ''b'')" and evs="?evs2"
      and production=False and window=True and available=True and stored="\<lambda>k. None"]
  have "refreshPromise (refreshAccessToken (tm_step (Resumes 0) ?t))
      = Some (length (tickets (tm_step (Resumes 0) ?t)))"
    by blast
  then have b: "refreshPromise (refreshAccessToken (tm_step (Resumes 0) ?t)) = Some 1"
    unfolding len .
  from a b show ?thesis
    unfolding run[symmetric] run2[symmetric] by simp
qed

section \<open>Properties of the bounded retry\<close>


























end
